theory Spec2Isabelle
  imports Main "HOL-Library.AList"
begin

section \<open>Bulk push rule evaluation: the per-room rule cache and the evaluation pass\<close>

text \<open>
  A shallow embedding of \<^verbatim>\<open>synapse/push/bulk_push_rule_evaluator.py\<close>.

  \<^item> Python dictionaries are association lists with \<open>map_of\<close> as lookup and
    \<open>AList.update\<close> as item assignment; the order of the list is the order in which the
    dictionary is iterated.
  \<^item> Python sets are HOL sets.
  \<^item> The dictionary \<^verbatim>\<open>self.rules_by_user\<close> is an object that \<^verbatim>\<open>get_rules\<close> hands out
    by reference (its fast path returns the very object), so dictionaries of rules live
    in an explicit heap and \<^verbatim>\<open>rules_by_user\<close> is an address.
  \<^item> The collaborators (the data store, the home server, the visibility filter, the
    condition evaluator) are the fields of a record \<open>env\<close> of functions.
  \<^item> A \<^verbatim>\<open>yield\<close> is a point where other code may run: \<^verbatim>\<open>get_rules\<close> is split there
    into the part before, the lookups, and the part after.
\<close>

subsection \<open>Data\<close>

type_synonym user_id = string
type_synonym event_id = string
type_synonym room_id = string

text \<open>A condition is a dictionary; the only key this module reads is \<^verbatim>\<open>_id\<close>.\<close>

type_synonym condition = "(string \<times> string) list"

text \<open>An action is a string such as \<^verbatim>\<open>notify\<close>, or a dictionary such as a tweak.\<close>

datatype action = Act string | ActDict "(string \<times> string) list"

text \<open>
  A rule is a dictionary with the keys \<^verbatim>\<open>conditions\<close> and \<^verbatim>\<open>actions\<close>, and possibly
  \<^verbatim>\<open>enabled\<close> (\<open>None\<close>: the key is absent).
\<close>

record rule =
  enabled :: "bool option"
  conditions :: "condition list"
  actions :: "action list"

type_synonym rules_dict = "(user_id \<times> rule list) list"

record event =
  event_room_id :: room_id
  event_type :: string
  sender :: user_id
  state_key :: "string option"
  content :: "(string \<times> string) list"
  event_id :: event_id

text \<open>
  The event context: the state group (an integer or \<^verbatim>\<open>None\<close>) and the map from
  (event type, state key) to the id of the event that holds this piece of state.
\<close>

record event_context =
  context_state_group :: "int option"
  current_state_ids :: "((string \<times> string) \<times> event_id) list"

record profile_info =
  avatar_url :: "string option"
  display_name :: "string option"

definition EventTypes_Member :: string where
  "EventTypes_Member = ''m.room.member''"

definition Membership_JOIN :: string where
  "Membership_JOIN = ''join''"

text \<open>Truth values of Python: \<^verbatim>\<open>None\<close>, the empty string and zero are false.\<close>

definition truthy_str :: "string option \<Rightarrow> bool" where
  "truthy_str s \<longleftrightarrow> s \<noteq> None \<and> s \<noteq> Some []"

definition truthy_int :: "int option \<Rightarrow> bool" where
  "truthy_int n \<longleftrightarrow> n \<noteq> None \<and> n \<noteq> Some 0"

text \<open>\<^verbatim>\<open>d.update(other)\<close>, and a dictionary built from a sequence of items (a later item wins).\<close>

definition dict_update :: "('k \<times> 'v) list \<Rightarrow> ('k \<times> 'v) list \<Rightarrow> ('k \<times> 'v) list" where
  "dict_update d other = fold (\<lambda>(k, v). AList.update k v) other d"

definition dict_of_items :: "('k \<times> 'v) list \<Rightarrow> ('k \<times> 'v) list" where
  "dict_of_items items = dict_update [] items"

subsection \<open>The collaborators\<close>

datatype error = KeyError string

record env =
  is_mine_id :: "user_id \<Rightarrow> bool"
  get_if_app_services_interested_in_user :: "user_id \<Rightarrow> bool"
  simple_select_many_batch :: "event_id list \<Rightarrow> (user_id \<times> string \<times> event_id) list"
  get_if_users_have_pushers :: "user_id set \<Rightarrow> (user_id \<times> bool) list"
  get_users_with_read_receipts_in_room :: "room_id \<Rightarrow> user_id set"
  bulk_get_push_rules :: "user_id set \<Rightarrow> (user_id \<times> rule list option) list"
  user_has_pusher :: "user_id \<Rightarrow> bool"
  get_push_rules_for_user :: "user_id \<Rightarrow> rule list"
  filter_events_for_clients_context ::
    "(user_id \<times> bool) list \<Rightarrow> event list \<Rightarrow> (event_id \<times> event_context) list \<Rightarrow>
     (user_id \<times> event list) list"
  get_joined_users_from_context :: "event \<Rightarrow> event_context \<Rightarrow> (user_id \<times> profile_info) list"
  PushRuleEvaluatorForEvent ::
    "event \<Rightarrow> nat \<Rightarrow> condition \<Rightarrow> user_id \<Rightarrow> string option \<Rightarrow> bool"

text \<open>The calls to the data store that the rule lookup makes, in the order it makes them.\<close>

datatype lookup =
    App_services_interested user_id
  | Select_many_batch "event_id list"
  | If_users_have_pushers "user_id set"
  | Users_with_read_receipts room_id
  | Bulk_get_push_rules "user_id set"
  | User_has_pusher user_id
  | Get_push_rules_for_user user_id

subsection \<open>The cache of one room\<close>

type_synonym addr = nat

text \<open>
  \<^verbatim>\<open>self.state_group\<close> is either an object made by \<^verbatim>\<open>object()\<close>, which is equal to
  itself only, or the state group of a context.
\<close>

datatype token = Object addr | Group "int option"

record RulesForRoom =
  room_id :: room_id
  member_map :: "(event_id \<times> user_id \<times> string) list"
  rules_by_user :: addr
  state_group :: token
  sequence :: int

text \<open>
  The world: the dictionaries of rules by address, the next unused address, and the
  \<^verbatim>\<open>RulesForRoom\<close> object that \<^verbatim>\<open>_get_rules_for_room\<close> holds for the room at hand.
  No reference to \<^verbatim>\<open>member_map\<close> ever leaves the object, so it is kept as a value.
\<close>

record world =
  heap :: "addr \<Rightarrow> rules_dict"
  next_addr :: addr
  room :: RulesForRoom

definition alloc :: "rules_dict \<Rightarrow> world \<Rightarrow> addr \<times> world" where
  "alloc d w =
     (next_addr w, w\<lparr>heap := (heap w)(next_addr w := d), next_addr := Suc (next_addr w)\<rparr>)"

definition cached_rules :: "world \<Rightarrow> rules_dict" where
  "cached_rules w = heap w (rules_by_user (room w))"

text \<open>\<^verbatim>\<open>RulesForRoom.__init__\<close>: two empty dictionaries, a new object, sequence 0.\<close>

definition new_RulesForRoom :: "room_id \<Rightarrow> world" where
  "new_RulesForRoom rid =
     \<lparr>heap = (\<lambda>_. []), next_addr = 2,
      room = \<lparr>room_id = rid, member_map = [], rules_by_user = 0,
              state_group = Object 1, sequence = 0\<rparr>\<rparr>"

text \<open>\<^verbatim>\<open>RulesForRoom.invalidate_all\<close>.\<close>

definition invalidate_all :: "world \<Rightarrow> world" where
  "invalidate_all w =
     w\<lparr>heap := (heap w)(Suc (next_addr w) := []),
       next_addr := Suc (Suc (next_addr w)),
       room := (room w)\<lparr>sequence := sequence (room w) + 1,
                        state_group := Object (next_addr w),
                        member_map := [],
                        rules_by_user := Suc (next_addr w)\<rparr>\<rparr>"

text \<open>\<^verbatim>\<open>RulesForRoom.update_cache\<close>: both dictionaries are updated in place.\<close>

definition update_cache ::
  "int \<Rightarrow> (event_id \<times> user_id \<times> string) list \<Rightarrow> rules_dict \<Rightarrow> int option \<Rightarrow> world \<Rightarrow> world"
where
  "update_cache sequence' members rules_by_user' state_group' w =
     (if sequence' = sequence (room w) then
        w\<lparr>heap := (heap w)(rules_by_user (room w) :=
                    dict_update (heap w (rules_by_user (room w))) rules_by_user'),
          room := (room w)\<lparr>member_map := dict_update (member_map (room w)) members,
                           state_group := Group state_group'\<rparr>\<rparr>
      else w)"

subsection \<open>\<^verbatim>\<open>RulesForRoom.get_rules\<close>\<close>

text \<open>
  The loop over \<^verbatim>\<open>current_state_ids\<close>. Its state is \<^verbatim>\<open>ret_rules_by_user\<close>,
  \<^verbatim>\<open>missing_member_event_ids\<close> and the store lookups made so far.
\<close>

fun state_loop ::
  "env \<Rightarrow> (event_id \<times> user_id \<times> string) list \<Rightarrow> rules_dict \<Rightarrow>
   ((string \<times> string) \<times> event_id) list \<Rightarrow>
   rules_dict \<times> (user_id \<times> event_id) list \<times> lookup list \<Rightarrow>
   rules_dict \<times> (user_id \<times> event_id) list \<times> lookup list"
where
  "state_loop e mm cached [] acc = acc"
| "state_loop e mm cached ((key, ev_id) # rest) (ret, missing, lg) =
     (case map_of mm ev_id of
        Some (uid, state) \<Rightarrow>
          state_loop e mm cached rest
            (if state = Membership_JOIN then
               (case map_of cached uid of
                  None \<Rightarrow> ret
                | Some rules \<Rightarrow> if rules \<noteq> [] then AList.update uid rules ret else ret)
             else ret, missing, lg)
      | None \<Rightarrow>
          if fst key \<noteq> EventTypes_Member then state_loop e mm cached rest (ret, missing, lg)
          else if \<not> is_mine_id e (snd key)
            then state_loop e mm cached rest (ret, missing, lg)
          else if get_if_app_services_interested_in_user e (snd key)
            then state_loop e mm cached rest
                   (ret, missing, lg @ [App_services_interested (snd key)])
          else state_loop e mm cached rest
                 (ret, AList.update (snd key) ev_id missing,
                  lg @ [App_services_interested (snd key)]))"

text \<open>
  What \<^verbatim>\<open>get_rules\<close> holds when it is suspended in \<^verbatim>\<open>_get_rules_for_member_event_ids\<close>:
  the sequence read on entry, the state group, \<^verbatim>\<open>ret_rules_by_user\<close> (an object only this
  call refers to, so a value here) and the missing member events.
\<close>

record pending =
  p_sequence :: int
  p_state_group :: "int option"
  p_ret :: rules_dict
  p_missing :: "(user_id \<times> event_id) list"
  p_log :: "lookup list"

datatype started = Returned addr "lookup list" world | Suspended pending

text \<open>
  Up to the first \<^verbatim>\<open>yield\<close>. \<open>fast_path\<close> is the test
  \<^verbatim>\<open>state_group and self.state_group == state_group\<close>. The fast path returns \<^verbatim>\<open>self.rules_by_user\<close> itself; with no
  missing member event the new dictionary is returned and nothing else happens.
\<close>

definition fast_path :: "event_context \<Rightarrow> world \<Rightarrow> bool" where
  "fast_path ctx w \<longleftrightarrow>
     truthy_int (context_state_group ctx)
     \<and> state_group (room w) = Group (context_state_group ctx)"

definition get_rules_start :: "env \<Rightarrow> event_context \<Rightarrow> world \<Rightarrow> started" where
  "get_rules_start e ctx w =
     (if fast_path ctx w
      then Returned (rules_by_user (room w)) [] w
      else
        (case state_loop e (member_map (room w)) (cached_rules w)
                 (current_state_ids ctx) ([], [], []) of
           (ret, missing, lg) \<Rightarrow>
             if missing \<noteq> [] then
               Suspended \<lparr>p_sequence = sequence (room w),
                          p_state_group = context_state_group ctx,
                          p_ret = ret, p_missing = missing, p_log = lg\<rparr>
             else (case alloc ret w of (a, w') \<Rightarrow> Returned a lg w')))"

text \<open>
  The four lookups of \<^verbatim>\<open>_get_rules_for_member_event_ids\<close>, which read nothing of the
  cache but the room id: the member rows, who has a pusher, who has a read receipt in
  the room, and the rules. The result is \<^verbatim>\<open>members\<close>, the set \<^verbatim>\<open>user_ids\<close> whose rules are
  asked for, \<^verbatim>\<open>rules_by_user\<close> without the \<^verbatim>\<open>None\<close> entries, and the lookups made.
\<close>

definition member_lookups ::
  "env \<Rightarrow> room_id \<Rightarrow> (user_id \<times> event_id) list \<Rightarrow>
   (event_id \<times> user_id \<times> string) list \<times> user_id set \<times> rules_dict \<times> lookup list"
where
  "member_lookups e rid member_event_ids =
     (let rows = simple_select_many_batch e (map snd member_event_ids);
          members = dict_of_items (map (\<lambda>(uid, membership, ev_id). (ev_id, (uid, membership))) rows);
          interested_in_user_ids = set (map (\<lambda>(ev_id, uid, membership). uid) members);
          if_users_with_pushers = get_if_users_have_pushers e interested_in_user_ids;
          user_ids = set (map fst (filter snd if_users_with_pushers));
          users_with_receipts = get_users_with_read_receipts_in_room e rid;
          user_ids' = user_ids \<union> Set.filter (\<lambda>uid. uid \<in> interested_in_user_ids) users_with_receipts;
          fetched = bulk_get_push_rules e user_ids';
          rules_by_user' = dict_of_items (List.map_filter (\<lambda>(k, v). map_option (Pair k) v) fetched)
      in (members, user_ids', rules_by_user',
          [Select_many_batch (map snd member_event_ids),
           If_users_have_pushers interested_in_user_ids,
           Users_with_read_receipts rid,
           Bulk_get_push_rules user_ids']))"

text \<open>
  After the lookups, in the world as it is by then: \<^verbatim>\<open>update_cache\<close> with the sequence
  read on entry, then \<^verbatim>\<open>ret_rules_by_user.update(missing_rules)\<close> is returned.
\<close>

definition get_rules_finish ::
  "pending \<Rightarrow> (event_id \<times> user_id \<times> string) list \<Rightarrow> rules_dict \<Rightarrow> world \<Rightarrow> addr \<times> world"
where
  "get_rules_finish p members rules_by_user' w =
     alloc (dict_update (p_ret p) rules_by_user')
       (update_cache (p_sequence p) members rules_by_user' (p_state_group p) w)"

text \<open>\<^verbatim>\<open>get_rules\<close> when nothing else runs while it is suspended.\<close>

definition get_rules :: "env \<Rightarrow> event_context \<Rightarrow> world \<Rightarrow> addr \<times> lookup list \<times> world" where
  "get_rules e ctx w =
     (case get_rules_start e ctx w of
        Returned a lg w' \<Rightarrow> (a, lg, w')
      | Suspended p \<Rightarrow>
          (case member_lookups e (room_id (room w)) (p_missing p) of
             (members, user_ids, rules_by_user', lg) \<Rightarrow>
               (case get_rules_finish p members rules_by_user' w of
                  (a, w') \<Rightarrow> (a, p_log p @ lg, w'))))"

subsection \<open>\<^verbatim>\<open>BulkPushRuleEvaluator._get_rules_for_event\<close>\<close>

text \<open>\<^verbatim>\<open>dict(d)\<close> makes a new object with the items of \<open>d\<close>; \<^verbatim>\<open>d[k] = v\<close> writes into the object.\<close>

definition dict_copy :: "addr \<Rightarrow> world \<Rightarrow> addr \<times> world" where
  "dict_copy a w = alloc (heap w a) w"

definition setitem :: "addr \<Rightarrow> user_id \<Rightarrow> rule list \<Rightarrow> world \<Rightarrow> world" where
  "setitem a k v w = w\<lparr>heap := (heap w)(a := AList.update k v (heap w a))\<rparr>"

text \<open>
  The part of \<^verbatim>\<open>_get_rules_for_event\<close> after \<^verbatim>\<open>get_rules\<close> has returned the dictionary
  at address \<open>a\<close>. \<^verbatim>\<open>event.content['membership']\<close> raises when the key is absent.
\<close>

definition invite_special_case ::
  "env \<Rightarrow> event \<Rightarrow> addr \<Rightarrow> world \<Rightarrow> error + (addr \<times> lookup list \<times> world)"
where
  "invite_special_case e ev a w =
     (if event_type ev = ''m.room.member'' then
        (case map_of (content ev) ''membership'' of
           None \<Rightarrow> Inl (KeyError ''membership'')
         | Some membership \<Rightarrow>
             if membership = ''invite'' then
               (case state_key ev of
                  None \<Rightarrow> Inr (a, [], w)
                | Some invited \<Rightarrow>
                    if truthy_str (Some invited) \<and> is_mine_id e invited then
                      (if user_has_pusher e invited then
                         (case dict_copy a w of
                            (a', w') \<Rightarrow>
                              Inr (a', [User_has_pusher invited, Get_push_rules_for_user invited],
                                   setitem a' invited (get_push_rules_for_user e invited) w'))
                       else Inr (a, [User_has_pusher invited], w))
                    else Inr (a, [], w))
             else Inr (a, [], w))
      else Inr (a, [], w))"

definition get_rules_for_event ::
  "env \<Rightarrow> event \<Rightarrow> event_context \<Rightarrow> world \<Rightarrow> error + (addr \<times> lookup list \<times> world)"
where
  "get_rules_for_event e ev ctx w =
     (case get_rules e ctx w of
        (a, lg, w') \<Rightarrow>
          (case invite_special_case e ev a w' of
             Inl err \<Rightarrow> Inl err
           | Inr (a', lg', w'') \<Rightarrow> Inr (a', lg @ lg', w'')))"

subsection \<open>\<^verbatim>\<open>_condition_checker\<close> and \<^verbatim>\<open>action_for_event_by_user\<close>\<close>

text \<open>\<^verbatim>\<open>cond.get("_id", None)\<close> when it is true, that is, present and not empty.\<close>

definition cond_id :: "condition \<Rightarrow> string option" where
  "cond_id c = (if truthy_str (map_of c ''_id'') then map_of c ''_id'' else None)"

fun condition_checker ::
  "(condition \<Rightarrow> user_id \<Rightarrow> string option \<Rightarrow> bool) \<Rightarrow> condition list \<Rightarrow> user_id \<Rightarrow>
   string option \<Rightarrow> (string \<times> bool) list \<Rightarrow> bool \<times> (string \<times> bool) list"
where
  "condition_checker evaluator [] uid dn cache = (True, cache)"
| "condition_checker evaluator (c # rest) uid dn cache =
     (case cond_id c of
        Some i \<Rightarrow>
          (case map_of cache i of
             Some False \<Rightarrow> (False, cache)
           | Some True \<Rightarrow> condition_checker evaluator rest uid dn cache
           | None \<Rightarrow>
               if \<not> evaluator c uid dn
               then (False, AList.update i (evaluator c uid dn) cache)
               else condition_checker evaluator rest uid dn
                      (AList.update i (evaluator c uid dn) cache))
      | None \<Rightarrow>
          if \<not> evaluator c uid dn then (False, cache)
          else condition_checker evaluator rest uid dn cache)"

text \<open>
  The loop over the rules of one user, which ends at the \<^verbatim>\<open>break\<close>. Its state is
  \<^verbatim>\<open>actions_by_user\<close> and \<^verbatim>\<open>condition_cache\<close>.
\<close>

fun rules_loop ::
  "(condition \<Rightarrow> user_id \<Rightarrow> string option \<Rightarrow> bool) \<Rightarrow> rule list \<Rightarrow> user_id \<Rightarrow>
   string option \<Rightarrow> (user_id \<times> action list) list \<times> (string \<times> bool) list \<Rightarrow>
   (user_id \<times> action list) list \<times> (string \<times> bool) list"
where
  "rules_loop evaluator [] uid dn st = st"
| "rules_loop evaluator (r # rest) uid dn (actions_by_user, cache) =
     (if enabled r = Some False then rules_loop evaluator rest uid dn (actions_by_user, cache)
      else
        (case condition_checker evaluator (conditions r) uid dn cache of
           (matches, cache') \<Rightarrow>
             if matches then
               (if filter (\<lambda>x. x \<noteq> Act ''dont_notify'') (actions r) \<noteq> []
                   \<and> Act ''notify'' \<in> set (filter (\<lambda>x. x \<noteq> Act ''dont_notify'') (actions r))
                then AList.update uid (filter (\<lambda>x. x \<noteq> Act ''dont_notify'') (actions r))
                       actions_by_user
                else actions_by_user, cache')
             else rules_loop evaluator rest uid dn (actions_by_user, cache')))"

definition display_name_for ::
  "event \<Rightarrow> (user_id \<times> profile_info) list \<Rightarrow> user_id \<Rightarrow> string option"
where
  "display_name_for ev room_members uid =
     (let dn = (case map_of room_members uid of None \<Rightarrow> None | Some p \<Rightarrow> display_name p)
      in if \<not> truthy_str dn then
           (if event_type ev = EventTypes_Member \<and> state_key ev = Some uid
            then map_of (content ev) ''displayname'' else dn)
         else dn)"

text \<open>
  The loop over the items of \<^verbatim>\<open>rules_by_user\<close>. \<^verbatim>\<open>filtered_by_user[uid]\<close> raises when the
  visibility filter has no entry for the user.
\<close>

fun users_loop ::
  "(condition \<Rightarrow> user_id \<Rightarrow> string option \<Rightarrow> bool) \<Rightarrow> event \<Rightarrow>
   (user_id \<times> profile_info) list \<Rightarrow> (user_id \<times> event list) list \<Rightarrow> rules_dict \<Rightarrow>
   (user_id \<times> action list) list \<times> (string \<times> bool) list \<Rightarrow>
   error + (user_id \<times> action list) list \<times> (string \<times> bool) list"
where
  "users_loop evaluator ev room_members filtered_by_user [] st = Inr st"
| "users_loop evaluator ev room_members filtered_by_user ((uid, rules) # rest) st =
     (case map_of filtered_by_user uid of
        None \<Rightarrow> Inl (KeyError uid)
      | Some [] \<Rightarrow> users_loop evaluator ev room_members filtered_by_user rest st
      | Some (first # _) \<Rightarrow>
          if sender first = uid
          then users_loop evaluator ev room_members filtered_by_user rest st
          else users_loop evaluator ev room_members filtered_by_user rest
                 (rules_loop evaluator rules uid (display_name_for ev room_members uid) st))"

definition action_for_event_by_user ::
  "env \<Rightarrow> event \<Rightarrow> event_context \<Rightarrow> world \<Rightarrow> error + (user_id \<times> action list) list \<times> world"
where
  "action_for_event_by_user e ev ctx w =
     (case get_rules_for_event e ev ctx w of
        Inl err \<Rightarrow> Inl err
      | Inr (a, lg, w') \<Rightarrow>
          (let user_tuples = map (\<lambda>u. (u, False)) (map fst (heap w' a));
               filtered_by_user =
                 filter_events_for_clients_context e user_tuples [ev] [(event_id ev, ctx)];
               room_members = get_joined_users_from_context e ev ctx;
               evaluator = PushRuleEvaluatorForEvent e ev (length room_members)
           in case users_loop evaluator ev room_members filtered_by_user (heap w' a) ([], []) of
                Inl err \<Rightarrow> Inl err
              | Inr (actions_by_user, cache) \<Rightarrow> Inr (actions_by_user, w')))"

subsection \<open>Auxiliary notions for the statements\<close>

text \<open>
  Every address held by the room object has been allocated. \<^verbatim>\<open>__init__\<close> establishes
  this and every operation keeps it.
\<close>

definition wf_world :: "world \<Rightarrow> bool" where
  "wf_world w \<longleftrightarrow>
     rules_by_user (room w) < next_addr w
     \<and> (case state_group (room w) of Object a \<Rightarrow> a < next_addr w | Group g \<Rightarrow> True)"

text \<open>
  What can happen to the cache of a room, in any order: a call of \<^verbatim>\<open>update_cache\<close> by a
  lookup that read the sequence number earlier, a whole \<^verbatim>\<open>get_rules\<close>, an invalidation.
\<close>

datatype operation =
    Update_cache int "(event_id \<times> user_id \<times> string) list" rules_dict "int option"
  | Refresh env event_context
  | Invalidate_all

fun apply_operation :: "operation \<Rightarrow> world \<Rightarrow> world" where
  "apply_operation (Update_cache s members rules g) w = update_cache s members rules g w"
| "apply_operation (Refresh e ctx) w = snd (snd (get_rules e ctx w))"
| "apply_operation Invalidate_all w = invalidate_all w"

definition run :: "operation list \<Rightarrow> world \<Rightarrow> world" where
  "run ops w = fold apply_operation ops w"

text \<open>
  The member state entries of a context that belong to a user of this server who is not
  an application service user, as a dictionary from user to event id.
\<close>

definition local_member_events :: "env \<Rightarrow> event_context \<Rightarrow> (user_id \<times> event_id) list" where
  "local_member_events e ctx =
     dict_of_items
       (map (\<lambda>(key, ev_id). (snd key, ev_id))
          (filter (\<lambda>(key, ev_id). fst key = EventTypes_Member \<and> is_mine_id e (snd key)
                     \<and> \<not> get_if_app_services_interested_in_user e (snd key))
             (current_state_ids ctx)))"

text \<open>
  Running over a list of rules none of which ends the loop: each is disabled or its
  conditions do not all hold. The result is the condition cache afterwards, or \<open>None\<close>
  when some rule of the list matches.
\<close>

fun pass_over ::
  "(condition \<Rightarrow> user_id \<Rightarrow> string option \<Rightarrow> bool) \<Rightarrow> rule list \<Rightarrow> user_id \<Rightarrow>
   string option \<Rightarrow> (string \<times> bool) list \<Rightarrow> (string \<times> bool) list option"
where
  "pass_over evaluator [] uid dn cache = Some cache"
| "pass_over evaluator (r # rest) uid dn cache =
     (if enabled r = Some False then pass_over evaluator rest uid dn cache
      else
        (case condition_checker evaluator (conditions r) uid dn cache of
           (matches, cache') \<Rightarrow>
             if matches then None else pass_over evaluator rest uid dn cache'))"

subsection \<open>A room to compute with\<close>

abbreviation alice :: user_id where "alice \<equiv> ''@a:hs''"
abbreviation bob :: user_id where "bob \<equiv> ''@b:hs''"
abbreviation carol :: user_id where "carol \<equiv> ''@c:hs''"
abbreviation dave :: user_id where "dave \<equiv> ''@d:hs''"

definition always :: condition where
  "always = [(''kind'', ''always'')]"

definition never :: condition where
  "never = [(''kind'', ''never'')]"

definition notify_rule :: rule where
  "notify_rule = \<lparr>enabled = None, conditions = [always], actions = [Act ''notify'']\<rparr>"

text \<open>
  Alice, Bob and Dave have a pusher, Carol has none but has a read receipt in the room.
  Alice and Carol have joined the room, Bob has left it. Every user is shown the event,
  and a condition holds when its kind is \<^verbatim>\<open>always\<close>.
\<close>

definition demo_env :: env where
  "demo_env =
     \<lparr>is_mine_id = (\<lambda>u. u \<in> set [alice, bob, carol, dave]),
      get_if_app_services_interested_in_user = (\<lambda>u. False),
      simple_select_many_batch =
        (\<lambda>ids. filter (\<lambda>(u, m, i). i \<in> set ids)
                 [(alice, ''join'', ''$a''), (bob, ''leave'', ''$b''), (carol, ''join'', ''$c'')]),
      get_if_users_have_pushers =
        (\<lambda>us. map (\<lambda>u. (u, u \<in> set [alice, bob, dave]))
                (filter (\<lambda>u. u \<in> us) [alice, bob, carol, dave])),
      get_users_with_read_receipts_in_room = (\<lambda>r. {carol}),
      bulk_get_push_rules =
        (\<lambda>us. map (\<lambda>u. (u, Some [notify_rule])) (filter (\<lambda>u. u \<in> us) [alice, bob, carol, dave])),
      user_has_pusher = (\<lambda>u. u \<in> set [alice, bob, dave]),
      get_push_rules_for_user = (\<lambda>u. [notify_rule]),
      filter_events_for_clients_context = (\<lambda>tuples evs ctxs. map (\<lambda>(u, p). (u, evs)) tuples),
      get_joined_users_from_context =
        (\<lambda>ev ctx. [(alice, \<lparr>avatar_url = None, display_name = Some ''Alice''\<rparr>)]),
      PushRuleEvaluatorForEvent = (\<lambda>ev n c uid dn. map_of c ''kind'' = Some ''always'')\<rparr>"

definition ctx_bob :: event_context where
  "ctx_bob = \<lparr>context_state_group = Some 1,
              current_state_ids = [((''m.room.member'', bob), ''$b'')]\<rparr>"

definition ctx_bob_later :: event_context where
  "ctx_bob_later = \<lparr>context_state_group = Some 3,
                    current_state_ids = [((''m.room.member'', bob), ''$b'')]\<rparr>"

definition ctx_alice_bob :: event_context where
  "ctx_alice_bob = \<lparr>context_state_group = Some 2,
                    current_state_ids = [((''m.room.member'', alice), ''$a''),
                                         ((''m.room.member'', bob), ''$b'')]\<rparr>"

definition ctx_carol :: event_context where
  "ctx_carol = \<lparr>context_state_group = Some 4,
                current_state_ids = [((''m.room.member'', carol), ''$c'')]\<rparr>"

definition message_from_alice :: event where
  "message_from_alice =
     \<lparr>event_room_id = ''!r'', event_type = ''m.room.message'', sender = alice,
      state_key = None, content = [(''body'', ''hi'')], event_id = ''$m''\<rparr>"

definition invite_dave :: event where
  "invite_dave =
     \<lparr>event_room_id = ''!r'', event_type = ''m.room.member'', sender = alice,
      state_key = Some dave, content = [(''membership'', ''invite'')], event_id = ''$i''\<rparr>"

text \<open>The room after a first \<^verbatim>\<open>get_rules\<close>, for a context in which Bob has left.\<close>

definition w_bob :: world where
  "w_bob = snd (snd (get_rules demo_env ctx_bob (new_RulesForRoom ''!r'')))"

text \<open>Two calls of \<^verbatim>\<open>get_rules\<close> in a row after that, with one context.\<close>

definition first_call :: "addr \<times> lookup list \<times> world" where
  "first_call = get_rules demo_env ctx_alice_bob w_bob"

definition second_call :: "addr \<times> lookup list \<times> world" where
  "second_call = get_rules demo_env ctx_alice_bob (snd (snd first_call))"

text \<open>The same collaborators, but the visibility filter hides every event from Bob.\<close>

definition demo_env_hiding_bob :: env where
  "demo_env_hiding_bob =
     demo_env\<lparr>filter_events_for_clients_context :=
                (\<lambda>tuples evs ctxs. map (\<lambda>(u, p). (u, if u = bob then [] else evs)) tuples)\<rparr>"

definition ctx_all :: event_context where
  "ctx_all = \<lparr>context_state_group = Some 5,
              current_state_ids = [((''m.room.member'', alice), ''$a''),
                                   ((''m.room.member'', bob), ''$b''),
                                   ((''m.room.member'', carol), ''$c'')]\<rparr>"

text \<open>
  The users whose cached rules \<^verbatim>\<open>get_rules\<close> reuses: a state entry of the context names
  an event that the member map knows as a join of the user, and the cached rules of the
  user are not empty.
\<close>

definition reusable ::
  "(event_id \<times> user_id \<times> string) list \<Rightarrow> rules_dict \<Rightarrow>
   ((string \<times> string) \<times> event_id) list \<Rightarrow> user_id \<Rightarrow> bool"
where
  "reusable mm cached ids u \<longleftrightarrow>
     (\<exists>(key, ev_id) \<in> set ids. map_of mm ev_id = Some (u, Membership_JOIN))
     \<and> (case map_of cached u of None \<Rightarrow> False | Some rules \<Rightarrow> rules \<noteq> [])"

text \<open>
  The member events that are missing: the state entries of the context whose event the
  member map does not know, of type member, for a user of this server who is not an
  application service user.
\<close>

definition missing_member_events ::
  "env \<Rightarrow> (event_id \<times> user_id \<times> string) list \<Rightarrow> ((string \<times> string) \<times> event_id) list \<Rightarrow>
   (user_id \<times> event_id) list"
where
  "missing_member_events e mm ids =
     dict_of_items
       (map (\<lambda>(key, ev_id). (snd key, ev_id))
          (filter (\<lambda>(key, ev_id). map_of mm ev_id = None \<and> fst key = EventTypes_Member
                     \<and> is_mine_id e (snd key)
                     \<and> \<not> get_if_app_services_interested_in_user e (snd key)) ids))"

text \<open>
  The condition cache agrees with the evaluator for one user on a list of conditions:
  an entry for the \<^verbatim>\<open>_id\<close> of a condition is what the evaluator says of the condition for
  this user, and two conditions with one \<^verbatim>\<open>_id\<close> get the same answer.
\<close>

definition memo_sound ::
  "(condition \<Rightarrow> user_id \<Rightarrow> string option \<Rightarrow> bool) \<Rightarrow> user_id \<Rightarrow> string option \<Rightarrow>
   (string \<times> bool) list \<Rightarrow> condition list \<Rightarrow> bool"
where
  "memo_sound evaluator uid dn cache conds \<longleftrightarrow>
     (\<forall>c \<in> set conds.
        case cond_id c of
          None \<Rightarrow> True
        | Some i \<Rightarrow>
            (case map_of cache i of None \<Rightarrow> True | Some b \<Rightarrow> b = evaluator c uid dn)
            \<and> (\<forall>c' \<in> set conds. cond_id c' = Some i \<longrightarrow>
                  evaluator c' uid dn = evaluator c uid dn))"

text \<open>The room after \<^verbatim>\<open>get_rules\<close> for Alice and Bob, and a later context with the same members.\<close>

definition w_alice_bob :: world where
  "w_alice_bob = snd (snd (get_rules demo_env ctx_alice_bob (new_RulesForRoom ''!r'')))"

definition ctx_alice_bob_later :: event_context where
  "ctx_alice_bob_later = \<lparr>context_state_group = Some 6,
                          current_state_ids = [((''m.room.member'', alice), ''$a''),
                                               ((''m.room.member'', bob), ''$b'')]\<rparr>"

text \<open>
  A condition that depends on the user and carries an \<^verbatim>\<open>_id\<close>: the state key of the event
  is the user. The evaluator holds it for Dave only; every user has the one rule with
  this condition.
\<close>

definition invite_for_me :: condition where
  "invite_for_me = [(''kind'', ''event_match''), (''key'', ''state_key''),
                    (''pattern_type'', ''user_id''), (''_id'', ''_invite_for_me'')]"

definition invite_rule :: rule where
  "invite_rule = \<lparr>enabled = None, conditions = [invite_for_me], actions = [Act ''notify'']\<rparr>"

definition invite_evaluator :: "condition \<Rightarrow> user_id \<Rightarrow> string option \<Rightarrow> bool" where
  "invite_evaluator c uid dn \<longleftrightarrow>
     map_of c ''kind'' = Some ''always''
     \<or> (map_of c ''pattern_type'' = Some ''user_id'' \<and> uid = dave)"

definition invite_env :: env where
  "invite_env =
     demo_env\<lparr>bulk_get_push_rules :=
                (\<lambda>us. map (\<lambda>u. (u, Some [invite_rule]))
                        (filter (\<lambda>u. u \<in> us) [alice, bob, carol, dave])),
              get_push_rules_for_user := (\<lambda>u. [invite_rule]),
              PushRuleEvaluatorForEvent := (\<lambda>ev n. invite_evaluator)\<rparr>"

text \<open>
  Four rules: a disabled one whose condition holds, one whose second condition fails, one
  whose two conditions hold (the first with an \<^verbatim>\<open>_id\<close>), and one more that holds.
\<close>

definition always_a :: condition where
  "always_a = [(''kind'', ''always''), (''_id'', ''_a'')]"

definition disabled_rule :: rule where
  "disabled_rule = \<lparr>enabled = Some False, conditions = [always],
                    actions = [Act ''notify'', Act ''sound'']\<rparr>"

definition failing_rule :: rule where
  "failing_rule = \<lparr>enabled = None, conditions = [always, never], actions = [Act ''notify'']\<rparr>"

definition chosen_rule :: rule where
  "chosen_rule = \<lparr>enabled = Some True, conditions = [always_a, always],
                  actions = [Act ''dont_notify'', Act ''notify'']\<rparr>"

definition later_rule :: rule where
  "later_rule = \<lparr>enabled = None, conditions = [always], actions = [Act ''highlight'']\<rparr>"

section \<open>Properties\<close>

subsection \<open>Dictionaries\<close>

lemma map_of_dict_update:
  "map_of (dict_update d other) = map_of d ++ map_of (rev other)"
  unfolding dict_update_def
proof (induction other arbitrary: d)
  case Nil
  show ?case by simp
next
  case (Cons x xs)
  obtain k v where x: "x = (k, v)" by (cases x)
  have "map_of (fold (\<lambda>(k, v). AList.update k v) xs (AList.update k v d))
        = map_of (AList.update k v d) ++ map_of (rev xs)"
    by (rule Cons.IH)
  then show ?case
    by (simp add: x AList.update_conv' map_add_upd_left fun_eq_iff map_add_def split: option.splits)
qed

lemma keys_dict_update:
  "fst ` set (dict_update d other) = fst ` set d \<union> fst ` set other"
  unfolding dict_update_def
proof (induction other arbitrary: d)
  case Nil
  show ?case by simp
next
  case (Cons x xs)
  obtain k v where x: "x = (k, v)" by (cases x)
  show ?case using Cons.IH [of "AList.update k v d"]
    by (auto simp: x AList.dom_update)
qed

lemma dict_update_Nil [simp]: "dict_update d [] = d"
  by (simp add: dict_update_def)

lemma map_of_dict_update_other:
  assumes "k \<notin> fst ` set other"
  shows "map_of (dict_update d other) k = map_of d k"
proof -
  from assms have "k \<notin> fst ` set (rev other)" by simp
  then have "map_of (rev other) k = None" by (simp add: map_of_eq_None_iff)
  then show ?thesis by (simp add: map_of_dict_update map_add_def)
qed

subsection \<open>Allocated addresses\<close>

lemma wf_new_RulesForRoom: "wf_world (new_RulesForRoom rid)"
  by (simp add: wf_world_def new_RulesForRoom_def)

lemma wf_invalidate_all: "wf_world (invalidate_all w)"
  by (simp add: wf_world_def invalidate_all_def)

lemma wf_update_cache: "wf_world w \<Longrightarrow> wf_world (update_cache s members rules g w)"
  by (simp add: wf_world_def update_cache_def)

lemma wf_alloc: "wf_world w \<Longrightarrow> alloc d w = (a, w') \<Longrightarrow> wf_world w'"
  by (auto simp: wf_world_def alloc_def split: token.splits)

lemma start_sequence:
  "get_rules_start e ctx w = Suspended p \<Longrightarrow>
   p_sequence p = sequence (room w) \<and> p_state_group p = context_state_group ctx"
  by (auto simp: get_rules_start_def alloc_def split: if_splits prod.splits)

lemma wf_get_rules:
  assumes "wf_world w"
  shows "wf_world (snd (snd (get_rules e ctx w)))"
proof (cases "get_rules_start e ctx w")
  case (Returned a lg w')
  then have "w' = w \<or> (\<exists>d. alloc d w = (a, w'))"
    by (auto simp: get_rules_start_def split: if_splits prod.splits)
  with assms have "wf_world w'" by (auto intro: wf_alloc)
  with Returned show ?thesis by (simp add: get_rules_def)
next
  case (Suspended p)
  then show ?thesis using assms
    by (auto simp: get_rules_def get_rules_finish_def split: prod.splits
          intro: wf_alloc [OF wf_update_cache])
qed

subsection \<open>A lookup that was overtaken by an invalidation\<close>

text \<open>
  Claim C1. A call of \<^verbatim>\<open>get_rules\<close> is suspended in world \<open>w\<close> with missing member
  events and finishes in world \<open>w'\<close>, whatever happened in between. If the sequence
  number of \<open>w'\<close> is not the one read in \<open>w\<close>, finishing changes neither the member
  map, nor the dictionary of rules (the object and its contents), nor the state group,
  nor the sequence, nor any other dictionary that existed; if it is the same, the
  members and rules are merged and the state group is set. In both cases the caller
  gets a new dictionary holding the reused rules updated with the rules just fetched.
\<close>

theorem stale_refresh_is_discarded:
  assumes "get_rules_start e ctx w = Suspended p"
    and "wf_world w'"
    and "get_rules_finish p members new_rules w' = (a, w'')"
  shows "(sequence (room w') \<noteq> sequence (room w) \<longrightarrow>
            member_map (room w'') = member_map (room w')
            \<and> rules_by_user (room w'') = rules_by_user (room w')
            \<and> cached_rules w'' = cached_rules w'
            \<and> state_group (room w'') = state_group (room w')
            \<and> sequence (room w'') = sequence (room w')
            \<and> (\<forall>b. b \<noteq> a \<longrightarrow> heap w'' b = heap w' b))
       \<and> (sequence (room w') = sequence (room w) \<longrightarrow>
            member_map (room w'') = dict_update (member_map (room w')) members
            \<and> cached_rules w'' = dict_update (cached_rules w') new_rules
            \<and> state_group (room w'') = Group (context_state_group ctx))
       \<and> a = next_addr w'
       \<and> heap w'' a = dict_update (p_ret p) new_rules"
proof -
  from assms(1) have p: "p_sequence p = sequence (room w)"
    "p_state_group p = context_state_group ctx"
    by (simp_all add: start_sequence)
  from assms(2) have lt: "rules_by_user (room w') < next_addr w'"
    by (simp add: wf_world_def)
  from assms(3) lt show ?thesis
    by (auto simp: get_rules_finish_def update_cache_def alloc_def cached_rules_def p)
qed


theorem stale_refresh_is_discarded_witness:
  "get_rules_start demo_env ctx_bob (new_RulesForRoom ''!r'') =
     Suspended \<lparr>p_sequence = 0, p_state_group = Some 1, p_ret = [],
                p_missing = [(bob, ''$b'')], p_log = [App_services_interested bob]\<rparr>
   \<and> wf_world (invalidate_all (new_RulesForRoom ''!r''))
   \<and> sequence (room (invalidate_all (new_RulesForRoom ''!r'')))
       \<noteq> sequence (room (new_RulesForRoom ''!r''))
   \<and> (case get_rules_finish
              \<lparr>p_sequence = 0, p_state_group = Some 1, p_ret = [],
               p_missing = [(bob, ''$b'')], p_log = [App_services_interested bob]\<rparr>
              [(''$b'', bob, ''leave'')] [(bob, [notify_rule])]
              (invalidate_all (new_RulesForRoom ''!r'')) of
         (a, w'') \<Rightarrow>
           cached_rules w'' = [] \<and> member_map (room w'') = []
           \<and> state_group (room w'') = Object 2 \<and> sequence (room w'') = 1
           \<and> heap w'' a = [(bob, [notify_rule])])"
proof -
  let ?p = "\<lparr>p_sequence = 0, p_state_group = Some 1, p_ret = [],
             p_missing = [(bob, ''$b'')], p_log = [App_services_interested bob]\<rparr>"
  let ?w = "new_RulesForRoom ''!r''"
  have start: "get_rules_start demo_env ctx_bob ?w = Suspended ?p"
    by (simp add: get_rules_start_def fast_path_def new_RulesForRoom_def ctx_bob_def
        cached_rules_def demo_env_def EventTypes_Member_def)
  have wf: "wf_world (invalidate_all ?w)"
    by (simp add: wf_world_def invalidate_all_def new_RulesForRoom_def)
  obtain a w'' where fin:
    "get_rules_finish ?p [(''$b'', bob, ''leave'')] [(bob, [notify_rule])] (invalidate_all ?w) = (a, w'')"
    by (cases "get_rules_finish ?p [(''$b'', bob, ''leave'')] [(bob, [notify_rule])] (invalidate_all ?w)")
  have seq: "sequence (room (invalidate_all ?w)) \<noteq> sequence (room ?w)"
    by (simp add: invalidate_all_def)
  have inv: "cached_rules (invalidate_all ?w) = []" "member_map (room (invalidate_all ?w)) = []"
    "state_group (room (invalidate_all ?w)) = Object 2" "sequence (room (invalidate_all ?w)) = 1"
    by (simp_all add: invalidate_all_def new_RulesForRoom_def cached_rules_def)
  from stale_refresh_is_discarded [OF start wf fin] seq inv
  have "cached_rules w'' = [] \<and> member_map (room w'') = []
         \<and> state_group (room w'') = Object 2 \<and> sequence (room w'') = 1
         \<and> heap w'' a = [(bob, [notify_rule])]"
    by (auto simp: dict_update_def)
  with start wf seq fin show ?thesis by simp
qed

subsection \<open>Invalidation\<close>

lemma state_loop_empty_member_map:
  "\<exists>lg'. state_loop e [] cached ids (ret, missing, lg) =
     (ret,
      dict_update missing
        (map (\<lambda>(key, ev_id). (snd key, ev_id))
           (filter (\<lambda>(key, ev_id). fst key = EventTypes_Member \<and> is_mine_id e (snd key)
                      \<and> \<not> get_if_app_services_interested_in_user e (snd key)) ids)),
      lg')"
proof (induction ids arbitrary: missing lg)
  case Nil
  show ?case by simp
next
  case (Cons x ids)
  obtain key ev_id where x: "x = (key, ev_id)" by (cases x)
  show ?case
    using Cons.IH [of missing lg]
      Cons.IH [of missing "lg @ [App_services_interested (snd key)]"]
      Cons.IH [of "AList.update (snd key) ev_id missing" "lg @ [App_services_interested (snd key)]"]
    by (simp add: x dict_update_def)
qed

text \<open>
  Claim C5. \<^verbatim>\<open>invalidate_all\<close> adds one to the sequence, empties the member map and the
  rules, and sets the state group to a new object: one at an address not allocated
  before, which is no state group of a context and differs from the state group held
  before. So the next \<^verbatim>\<open>get_rules\<close> does not take the fast path, whatever the context;
  it reuses nothing, every member event of a local user who is not an application service
  user is missing, and when there is one the call goes on to the lookups for all of them.
\<close>

theorem invalidate_all_resets:
  "sequence (room (invalidate_all w)) = sequence (room w) + 1
   \<and> member_map (room (invalidate_all w)) = []
   \<and> cached_rules (invalidate_all w) = []
   \<and> state_group (room (invalidate_all w)) = Object (next_addr w)
   \<and> (\<forall>g. state_group (room (invalidate_all w)) \<noteq> Group g)
   \<and> (\<forall>a. a < next_addr w \<longrightarrow> state_group (room (invalidate_all w)) \<noteq> Object a)
   \<and> (wf_world w \<longrightarrow> state_group (room (invalidate_all w)) \<noteq> state_group (room w))
   \<and> \<not> fast_path ctx (invalidate_all w)
   \<and> (\<exists>lg. state_loop e (member_map (room (invalidate_all w))) (cached_rules (invalidate_all w))
              (current_state_ids ctx) ([], [], []) = ([], local_member_events e ctx, lg))
   \<and> (local_member_events e ctx \<noteq> [] \<longrightarrow>
        (\<exists>lg. get_rules_start e ctx (invalidate_all w) =
               Suspended \<lparr>p_sequence = sequence (room w) + 1,
                          p_state_group = context_state_group ctx,
                          p_ret = [], p_missing = local_member_events e ctx, p_log = lg\<rparr>))"
proof -
  have fields: "sequence (room (invalidate_all w)) = sequence (room w) + 1"
    "member_map (room (invalidate_all w)) = []"
    "cached_rules (invalidate_all w) = []"
    "state_group (room (invalidate_all w)) = Object (next_addr w)"
    by (simp_all add: invalidate_all_def cached_rules_def)
  have fresh: "wf_world w \<longrightarrow> state_group (room (invalidate_all w)) \<noteq> state_group (room w)"
    by (auto simp: fields wf_world_def split: token.splits)
  have slow: "\<not> fast_path ctx (invalidate_all w)"
    by (simp add: fast_path_def fields)
  obtain lg where loop:
    "state_loop e [] [] (current_state_ids ctx) ([], [], []) = ([], local_member_events e ctx, lg)"
    using state_loop_empty_member_map [of e "[]" "current_state_ids ctx" "[]" "[]" "[]"]
    by (auto simp: local_member_events_def dict_of_items_def)
  have start: "local_member_events e ctx \<noteq> [] \<longrightarrow>
     get_rules_start e ctx (invalidate_all w) =
       Suspended \<lparr>p_sequence = sequence (room w) + 1,
                  p_state_group = context_state_group ctx,
                  p_ret = [], p_missing = local_member_events e ctx, p_log = lg\<rparr>"
    by (simp add: get_rules_start_def slow fields loop)
  from fields fresh slow loop start show ?thesis by auto
qed

theorem invalidate_all_resets_witness:
  "wf_world (snd (snd (get_rules demo_env ctx_bob (new_RulesForRoom ''!r''))))
   \<and> 0 < next_addr (snd (snd (get_rules demo_env ctx_bob (new_RulesForRoom ''!r''))))
   \<and> local_member_events demo_env ctx_alice_bob = [(alice, ''$a''), (bob, ''$b'')]
   \<and> cached_rules (snd (snd (get_rules demo_env ctx_bob (new_RulesForRoom ''!r'')))) = [(bob, [notify_rule])]
   \<and> cached_rules (invalidate_all (snd (snd (get_rules demo_env ctx_bob (new_RulesForRoom ''!r''))))) = []
   \<and> state_group (room (snd (snd (get_rules demo_env ctx_bob (new_RulesForRoom ''!r''))))) = Group (Some 1)
   \<and> state_group (room (invalidate_all (snd (snd (get_rules demo_env ctx_bob (new_RulesForRoom ''!r'')))))) = Object 3
   \<and> (\<exists>lg. get_rules_start demo_env ctx_alice_bob
              (invalidate_all (snd (snd (get_rules demo_env ctx_bob (new_RulesForRoom ''!r''))))) =
            Suspended \<lparr>p_sequence = 1, p_state_group = Some 2, p_ret = [],
                       p_missing = [(alice, ''$a''), (bob, ''$b'')], p_log = lg\<rparr>)"
proof -
  let ?w = "snd (snd (get_rules demo_env ctx_bob (new_RulesForRoom ''!r'')))"
  have wf: "wf_world ?w"
    by (rule wf_get_rules [OF wf_new_RulesForRoom])
  have w: "next_addr ?w = 3" "room ?w = \<lparr>room_id = ''!r'', member_map = [(''$b'', bob, ''leave'')],
      rules_by_user = 0, state_group = Group (Some 1), sequence = 0\<rparr>"
    "cached_rules ?w = [(bob, [notify_rule])]"
    by code_simp+
  have l: "local_member_events demo_env ctx_alice_bob = [(alice, ''$a''), (bob, ''$b'')]"
    by (simp add: local_member_events_def ctx_alice_bob_def demo_env_def EventTypes_Member_def
        dict_of_items_def dict_update_def)
  from invalidate_all_resets [of ?w ctx_alice_bob demo_env] wf w l
  show ?thesis by (simp add: ctx_alice_bob_def)
qed

subsection \<open>Commits only add\<close>

lemma alloc_keeps:
  assumes "wf_world w" and "alloc d w = (a, w')"
  shows "room w' = room w" and "cached_rules w' = cached_rules w"
    and "a = next_addr w" and "heap w' a = d"
    and "\<forall>b. b < next_addr w \<longrightarrow> heap w' b = heap w b"
  using assms by (auto simp: alloc_def wf_world_def cached_rules_def)

lemma update_cache_keys:
  "fst ` set (cached_rules w) \<subseteq> fst ` set (cached_rules (update_cache s members rules g w))"
  "fst ` set (member_map (room w))
     \<subseteq> fst ` set (member_map (room (update_cache s members rules g w)))"
  by (auto simp: update_cache_def cached_rules_def keys_dict_update)

lemma get_rules_keys:
  assumes "wf_world w"
  shows "fst ` set (cached_rules w) \<subseteq> fst ` set (cached_rules (snd (snd (get_rules e ctx w))))
       \<and> fst ` set (member_map (room w))
           \<subseteq> fst ` set (member_map (room (snd (snd (get_rules e ctx w)))))"
proof (cases "get_rules_start e ctx w")
  case (Returned a lg w')
  then have "w' = w \<or> (\<exists>d. alloc d w = (a, w'))"
    by (auto simp: get_rules_start_def split: if_splits prod.splits)
  with assms have "room w' = room w" "cached_rules w' = cached_rules w"
    by (auto dest: alloc_keeps)
  with Returned show ?thesis by (simp add: get_rules_def)
next
  case (Suspended p)
  obtain members user_ids rules lg
    where l: "member_lookups e (room_id (room w)) (p_missing p) = (members, user_ids, rules, lg)"
    by (cases "member_lookups e (room_id (room w)) (p_missing p)") auto
  let ?u = "update_cache (p_sequence p) members rules (p_state_group p) w"
  obtain a w' where f: "alloc (dict_update (p_ret p) rules) ?u = (a, w')"
    by (cases "alloc (dict_update (p_ret p) rules) ?u") auto
  from assms have "wf_world ?u" by (rule wf_update_cache)
  from alloc_keeps(1,2) [OF this f] update_cache_keys [of w "p_sequence p" members rules "p_state_group p"]
  have "fst ` set (cached_rules w) \<subseteq> fst ` set (cached_rules w')"
    "fst ` set (member_map (room w)) \<subseteq> fst ` set (member_map (room w'))"
    by simp_all
  with Suspended l f show ?thesis
    by (simp add: get_rules_def get_rules_finish_def)
qed

lemma apply_operation_keys:
  assumes "wf_world w" and "op \<noteq> Invalidate_all"
  shows "wf_world (apply_operation op w)
       \<and> fst ` set (cached_rules w) \<subseteq> fst ` set (cached_rules (apply_operation op w))
       \<and> fst ` set (member_map (room w)) \<subseteq> fst ` set (member_map (room (apply_operation op w)))"
proof (cases op)
  case (Update_cache s members rules g)
  with assms(1) show ?thesis
    using update_cache_keys [of w s members rules g] by (simp add: wf_update_cache)
next
  case (Refresh e ctx)
  with assms(1) show ?thesis
    using get_rules_keys [of w e ctx] by (simp add: wf_get_rules)
next
  case Invalidate_all
  with assms(2) show ?thesis by simp
qed

lemma run_keys:
  assumes "wf_world w" and "Invalidate_all \<notin> set ops"
  shows "fst ` set (cached_rules w) \<subseteq> fst ` set (cached_rules (run ops w))
       \<and> fst ` set (member_map (room w)) \<subseteq> fst ` set (member_map (room (run ops w)))"
  using assms unfolding run_def
proof (induction ops arbitrary: w)
  case Nil
  show ?case by simp
next
  case (Cons op ops)
  from Cons.prems have ne: "op \<noteq> Invalidate_all" and rest: "Invalidate_all \<notin> set ops"
    by auto
  note step = apply_operation_keys [OF Cons.prems(1) ne]
  from step have "wf_world (apply_operation op w)" by simp
  from Cons.IH [OF this rest] step show ?case
    by (simp only: fold_Cons o_apply) (blast intro: order_trans)
qed

text \<open>
  Claim C9. A call of \<^verbatim>\<open>update_cache\<close> with the current sequence number leaves every
  key of \<^verbatim>\<open>rules_by_user\<close> and of \<^verbatim>\<open>member_map\<close> in place and adds the keys it is given;
  an entry whose key it is not given keeps its value. Over any run of calls of
  \<^verbatim>\<open>update_cache\<close> (with any sequence number) and of \<^verbatim>\<open>get_rules\<close> that contains no
  invalidation, the users with rules and the member events known at the start are
  still there at the end.
\<close>

theorem commits_only_add:
  assumes "wf_world w"
  shows "fst ` set (cached_rules (update_cache (sequence (room w)) members rules g w))
           = fst ` set (cached_rules w) \<union> fst ` set rules
       \<and> fst ` set (member_map (room (update_cache (sequence (room w)) members rules g w)))
           = fst ` set (member_map (room w)) \<union> fst ` set members
       \<and> (\<forall>u. u \<notin> fst ` set rules \<longrightarrow>
             map_of (cached_rules (update_cache (sequence (room w)) members rules g w)) u
               = map_of (cached_rules w) u)
       \<and> (\<forall>i. i \<notin> fst ` set members \<longrightarrow>
             map_of (member_map (room (update_cache (sequence (room w)) members rules g w))) i
               = map_of (member_map (room w)) i)
       \<and> (Invalidate_all \<notin> set ops \<longrightarrow>
             fst ` set (cached_rules w) \<subseteq> fst ` set (cached_rules (run ops w))
             \<and> fst ` set (member_map (room w)) \<subseteq> fst ` set (member_map (room (run ops w))))"
proof -
  have c: "cached_rules (update_cache (sequence (room w)) members rules g w)
             = dict_update (cached_rules w) rules"
    "member_map (room (update_cache (sequence (room w)) members rules g w))
             = dict_update (member_map (room w)) members"
    by (simp_all add: update_cache_def cached_rules_def)
  have "\<forall>u. u \<notin> fst ` set rules \<longrightarrow>
          map_of (dict_update (cached_rules w) rules) u = map_of (cached_rules w) u"
    by (simp add: map_of_dict_update_other)
  moreover have "\<forall>i. i \<notin> fst ` set members \<longrightarrow>
          map_of (dict_update (member_map (room w)) members) i = map_of (member_map (room w)) i"
    by (simp add: map_of_dict_update_other)
  moreover note run_keys [OF assms, of ops]
  ultimately show ?thesis by (simp add: c keys_dict_update)
qed

theorem commits_only_add_witness:
  "wf_world (new_RulesForRoom ''!r'')
   \<and> Invalidate_all \<notin> set [Refresh demo_env ctx_bob, Update_cache 7 [] [] None,
                             Refresh demo_env ctx_alice_bob]
   \<and> fst ` set (cached_rules (run [Refresh demo_env ctx_bob] (new_RulesForRoom ''!r''))) = {bob}
   \<and> bob \<in> fst ` set (cached_rules
            (run [Refresh demo_env ctx_alice_bob]
               (run [Refresh demo_env ctx_bob] (new_RulesForRoom ''!r''))))
   \<and> alice \<notin> fst ` set [(bob, [notify_rule])]
   \<and> map_of (cached_rules (update_cache 0 [] [(bob, [notify_rule])] None (new_RulesForRoom ''!r''))) alice = None"
proof -
  let ?init = "new_RulesForRoom ''!r''"
  let ?w = "run [Refresh demo_env ctx_bob] ?init"
  have wf0: "wf_world ?init" by (rule wf_new_RulesForRoom)
  have "?w = snd (snd (get_rules demo_env ctx_bob ?init))"
    by (simp add: run_def)
  with wf_get_rules [OF wf0, of demo_env ctx_bob] have wf: "wf_world ?w"
    by simp
  have k: "fst ` set (cached_rules ?w) = {bob}"
    unfolding run_def by code_simp
  have s: "sequence (room ?init) = 0" "cached_rules ?init = []"
    by (simp_all add: new_RulesForRoom_def cached_rules_def)
  from commits_only_add [OF wf, of "[]" "[]" None "[Refresh demo_env ctx_alice_bob]"] k
  have 1: "bob \<in> fst ` set (cached_rules (run [Refresh demo_env ctx_alice_bob] ?w))"
    by auto
  from commits_only_add [OF wf0, of "[]" "[(bob, [notify_rule])]" None "[]"] s
  have 2: "map_of (cached_rules (update_cache 0 [] [(bob, [notify_rule])] None ?init)) alice = None"
    by simp
  from wf0 k 1 2 show ?thesis by simp
qed

subsection \<open>What \<^verbatim>\<open>get_rules\<close> reuses, and when it updates the state group\<close>

lemma state_loop_reuses_cached:
  assumes "state_loop e mm cached ids (ret, missing, lg) = (ret', missing', lg')"
    and "map_of ret \<subseteq>\<^sub>m map_of cached"
  shows "map_of ret' \<subseteq>\<^sub>m map_of cached"
  using assms
proof (induction ids arbitrary: ret missing lg)
  case Nil
  then show ?case by simp
next
  case (Cons x ids)
  obtain key ev_id where x: "x = (key, ev_id)" by (cases x)
  have upd: "map_of (AList.update uid rules ret) \<subseteq>\<^sub>m map_of cached"
    if "map_of cached uid = Some rules" for uid rules
    using that Cons.prems(2) by (auto simp: AList.update_conv' map_le_def)
  from Cons.prems(1) have "\<exists>ret1 missing1 lg1.
      state_loop e mm cached ids (ret1, missing1, lg1) = (ret', missing', lg')
      \<and> (ret1 = ret \<or> (\<exists>uid rules. map_of cached uid = Some rules
                                \<and> ret1 = AList.update uid rules ret))"
    by (simp add: x split: option.splits if_splits prod.splits) blast+
  then obtain ret1 missing1 lg1
    where step: "state_loop e mm cached ids (ret1, missing1, lg1) = (ret', missing', lg')"
      and r: "ret1 = ret \<or> (\<exists>uid rules. map_of cached uid = Some rules
                                \<and> ret1 = AList.update uid rules ret)"
    by blast
  from r upd Cons.prems(2) have "map_of ret1 \<subseteq>\<^sub>m map_of cached" by auto
  with step show ?case by (rule Cons.IH)
qed

lemma map_add_le_right: "m1 \<subseteq>\<^sub>m m2 \<Longrightarrow> m1 ++ r \<subseteq>\<^sub>m m2 ++ r"
  by (auto simp: map_le_def map_add_def dom_def split: option.splits)

lemma reusable_Cons:
  "reusable mm cached ((key, ev_id) # ids) u \<longleftrightarrow>
     (map_of mm ev_id = Some (u, Membership_JOIN)
        \<and> (case map_of cached u of None \<Rightarrow> False | Some rules \<Rightarrow> rules \<noteq> []))
     \<or> reusable mm cached ids u"
  by (auto simp: reusable_def)

lemma state_loop_result:
  assumes "state_loop e mm cached ids (ret, missing, lg) = (ret', missing', lg')"
  shows "(\<forall>u. map_of ret' u = (if reusable mm cached ids u then map_of cached u else map_of ret u))
       \<and> missing' =
           dict_update missing
             (map (\<lambda>(key, ev_id). (snd key, ev_id))
                (filter (\<lambda>(key, ev_id). map_of mm ev_id = None \<and> fst key = EventTypes_Member
                           \<and> is_mine_id e (snd key)
                           \<and> \<not> get_if_app_services_interested_in_user e (snd key)) ids))"
  using assms
proof (induction ids arbitrary: ret missing lg)
  case Nil
  then show ?case by (simp add: reusable_def)
next
  case (Cons x ids)
  obtain key ev_id where x: "x = (key, ev_id)" by (cases x)
  show ?case
  proof (cases "map_of mm ev_id")
    case None
    with Cons.prems have "\<exists>missing1 lg1.
        state_loop e mm cached ids (ret, missing1, lg1) = (ret', missing', lg')
        \<and> missing1 = (if fst key = EventTypes_Member \<and> is_mine_id e (snd key)
                          \<and> \<not> get_if_app_services_interested_in_user e (snd key)
                       then AList.update (snd key) ev_id missing else missing)"
      by (auto simp: x split: if_splits)
    then obtain missing1 lg1
      where step: "state_loop e mm cached ids (ret, missing1, lg1) = (ret', missing', lg')"
        and m: "missing1 = (if fst key = EventTypes_Member \<and> is_mine_id e (snd key)
                          \<and> \<not> get_if_app_services_interested_in_user e (snd key)
                       then AList.update (snd key) ev_id missing else missing)"
      by blast
    from Cons.IH [OF step] None m show ?thesis
      by (simp add: x reusable_Cons dict_update_def)
  next
    case (Some res)
    obtain uid state where res: "res = (uid, state)" by (cases res)
    define ret1 where "ret1 = (if state = Membership_JOIN then
                   (case map_of cached uid of
                      None \<Rightarrow> ret
                    | Some rules \<Rightarrow> if rules \<noteq> [] then AList.update uid rules ret else ret)
                 else ret)"
    from Cons.prems Some res
    have step: "state_loop e mm cached ids (ret1, missing, lg) = (ret', missing', lg')"
      by (simp add: x ret1_def)
    have r: "map_of ret1 u =
               (if map_of mm ev_id = Some (u, Membership_JOIN)
                   \<and> (case map_of cached u of None \<Rightarrow> False | Some rules \<Rightarrow> rules \<noteq> [])
                then map_of cached u else map_of ret u)" for u
      by (auto simp: ret1_def Some res AList.update_conv' split: option.splits)
    from Cons.IH [OF step] have
      "\<forall>u. map_of ret' u = (if reusable mm cached ids u then map_of cached u else map_of ret1 u)"
      and mis: "missing' = dict_update missing
             (map (\<lambda>(key, ev_id). (snd key, ev_id))
                (filter (\<lambda>(key, ev_id). map_of mm ev_id = None \<and> fst key = EventTypes_Member
                           \<and> is_mine_id e (snd key)
                           \<and> \<not> get_if_app_services_interested_in_user e (snd key)) ids))"
      by blast+
    then have "\<forall>u. map_of ret' u
        = (if reusable mm cached ((key, ev_id) # ids) u then map_of cached u else map_of ret u)"
      by (simp add: r reusable_Cons)
    with mis Some show ?thesis by (simp add: x)
  qed
qed

text \<open>
  Claim C3, as the code has it. When \<^verbatim>\<open>get_rules\<close> does not take the fast path and no
  member event is missing, it returns a new dictionary that holds exactly the reused
  rules: the cached rules of every user for whom a state entry of the context names an
  event that the member map knows as a join and whose cached rules are not empty, and
  nothing for any other user. It does not call \<^verbatim>\<open>update_cache\<close>: the room object, the
  cached rules and every dictionary that existed are as before, so the state group held
  by the room is the one it held before the call.
\<close>

theorem no_missing_no_commit:
  assumes "\<not> fast_path ctx w" and "wf_world w"
    and "missing_member_events e (member_map (room w)) (current_state_ids ctx) = []"
  shows "\<exists>lg w'. get_rules e ctx w = (next_addr w, lg, w')
              \<and> (\<forall>u. map_of (heap w' (next_addr w)) u =
                        (if reusable (member_map (room w)) (cached_rules w) (current_state_ids ctx) u
                         then map_of (cached_rules w) u else None))
              \<and> room w' = room w
              \<and> cached_rules w' = cached_rules w
              \<and> state_group (room w') = state_group (room w)
              \<and> (\<forall>b. b < next_addr w \<longrightarrow> heap w' b = heap w b)"
proof -
  obtain ret missing lg where loop:
    "state_loop e (member_map (room w)) (cached_rules w) (current_state_ids ctx) ([], [], [])
       = (ret, missing, lg)"
    by (cases "state_loop e (member_map (room w)) (cached_rules w) (current_state_ids ctx)
                 ([], [], [])") auto
  note res = state_loop_result [OF loop]
  from res assms(3) have m: "missing = []"
    by (simp add: missing_member_events_def dict_of_items_def)
  obtain a w' where al: "alloc ret w = (a, w')" by (cases "alloc ret w")
  from assms(1) loop m al have g: "get_rules e ctx w = (a, lg, w')"
    by (simp add: get_rules_def get_rules_start_def)
  note k = alloc_keeps [OF assms(2) al]
  from res k(3,4) have "\<forall>u. map_of (heap w' (next_addr w)) u =
      (if reusable (member_map (room w)) (cached_rules w) (current_state_ids ctx) u
       then map_of (cached_rules w) u else None)"
    by simp
  with g k show ?thesis by simp
qed

theorem no_missing_no_commit_witness:
  "\<not> fast_path ctx_alice_bob_later w_alice_bob \<and> wf_world w_alice_bob
   \<and> missing_member_events demo_env (member_map (room w_alice_bob))
        (current_state_ids ctx_alice_bob_later) = []
   \<and> member_map (room w_alice_bob) = [(''$a'', alice, ''join''), (''$b'', bob, ''leave'')]
   \<and> cached_rules w_alice_bob = [(alice, [notify_rule]), (bob, [notify_rule])]
   \<and> reusable (member_map (room w_alice_bob)) (cached_rules w_alice_bob)
        (current_state_ids ctx_alice_bob_later) alice
   \<and> \<not> reusable (member_map (room w_alice_bob)) (cached_rules w_alice_bob)
        (current_state_ids ctx_alice_bob_later) bob
   \<and> (\<exists>lg w'. get_rules demo_env ctx_alice_bob_later w_alice_bob = (3, lg, w')
         \<and> map_of (heap w' 3) alice = Some [notify_rule]
         \<and> map_of (heap w' 3) bob = None
         \<and> cached_rules w' = [(alice, [notify_rule]), (bob, [notify_rule])]
         \<and> state_group (room w') = Group (Some 2))"
proof -
  have f: "\<not> fast_path ctx_alice_bob_later w_alice_bob"
    unfolding w_alice_bob_def by code_simp
  have wf: "wf_world w_alice_bob"
    unfolding w_alice_bob_def by (rule wf_get_rules [OF wf_new_RulesForRoom])
  have m: "missing_member_events demo_env (member_map (room w_alice_bob))
        (current_state_ids ctx_alice_bob_later) = []"
    unfolding w_alice_bob_def by code_simp
  have s: "state_group (room w_alice_bob) = Group (Some 2)" "next_addr w_alice_bob = 3"
    "member_map (room w_alice_bob) = [(''$a'', alice, ''join''), (''$b'', bob, ''leave'')]"
    "cached_rules w_alice_bob = [(alice, [notify_rule]), (bob, [notify_rule])]"
    unfolding w_alice_bob_def by code_simp+
  have r: "reusable (member_map (room w_alice_bob)) (cached_rules w_alice_bob)
        (current_state_ids ctx_alice_bob_later) alice"
    "\<not> reusable (member_map (room w_alice_bob)) (cached_rules w_alice_bob)
        (current_state_ids ctx_alice_bob_later) bob"
    unfolding w_alice_bob_def by code_simp+
  from no_missing_no_commit [OF f wf m] s r
  have "\<exists>lg w'. get_rules demo_env ctx_alice_bob_later w_alice_bob = (3, lg, w')
         \<and> map_of (heap w' 3) alice = Some [notify_rule]
         \<and> map_of (heap w' 3) bob = None
         \<and> cached_rules w' = [(alice, [notify_rule]), (bob, [notify_rule])]
         \<and> state_group (room w') = Group (Some 2)"
    by auto
  with f wf m s r show ?thesis by simp
qed

text \<open>
  The claim as stated fails: with Bob's member event known to the cache and the state
  group of the cache 1, a context of state group 3 with the same member event leaves
  nothing missing, and after \<^verbatim>\<open>get_rules\<close> the state group of the cache is still 1; a
  second call with that context does not take the fast path either.
\<close>

theorem no_missing_commit_counterexample:
  "\<not> fast_path ctx_bob_later w_bob
   \<and> fst (snd (state_loop demo_env (member_map (room w_bob)) (cached_rules w_bob)
                 (current_state_ids ctx_bob_later) ([], [], []))) = []
   \<and> state_group (room (snd (snd (get_rules demo_env ctx_bob_later w_bob))))
       \<noteq> Group (context_state_group ctx_bob_later)
   \<and> \<not> fast_path ctx_bob_later (snd (snd (get_rules demo_env ctx_bob_later w_bob)))"
  unfolding w_bob_def by code_simp

text \<open>
  Claim C2, as the code has it. Let the state group of the context be true (neither
  \<^verbatim>\<open>None\<close> nor 0), and let the first \<^verbatim>\<open>get_rules\<close> either take the fast path or find a
  missing member event (so that it calls \<^verbatim>\<open>update_cache\<close>). Then a second call with the
  same state group, with nothing in between, takes the fast path: it makes no lookup,
  changes nothing and returns the dictionary \<^verbatim>\<open>self.rules_by_user\<close> itself. Every entry of
  the first result is an entry of the second; the two results are the same when the
  first call took the fast path or the cached rules were empty before it.
\<close>

theorem second_call_is_fast_path:
  assumes "truthy_int (context_state_group ctx)"
    and "context_state_group ctx' = context_state_group ctx"
    and "wf_world w"
    and "fast_path ctx w \<or> (\<exists>p. get_rules_start e ctx w = Suspended p)"
    and "get_rules e ctx w = (a1, lg1, w1)"
  shows "get_rules e' ctx' w1 = (rules_by_user (room w1), [], w1)
       \<and> map_of (heap w1 a1) \<subseteq>\<^sub>m map_of (cached_rules w1)
       \<and> (fast_path ctx w \<or> cached_rules w = [] \<longrightarrow> heap w1 a1 = cached_rules w1)"
proof (cases "fast_path ctx w")
  case True
  with assms(5) have r: "a1 = rules_by_user (room w)" "w1 = w"
    by (auto simp: get_rules_def get_rules_start_def)
  from True assms(2) have "fast_path ctx' w" by (simp add: fast_path_def)
  then have "get_rules e' ctx' w = (rules_by_user (room w), [], w)"
    by (simp add: get_rules_def get_rules_start_def)
  with r show ?thesis by (auto simp: cached_rules_def)
next
  case False
  with assms(4) obtain p where p: "get_rules_start e ctx w = Suspended p" by blast
  obtain members user_ids rules lg
    where l: "member_lookups e (room_id (room w)) (p_missing p) = (members, user_ids, rules, lg)"
    by (cases "member_lookups e (room_id (room w)) (p_missing p)") auto
  let ?u = "update_cache (p_sequence p) members rules (p_state_group p) w"
  from p l assms(5) have al: "alloc (dict_update (p_ret p) rules) ?u = (a1, w1)"
    by (simp add: get_rules_def get_rules_finish_def split: prod.splits)
  have wfu: "wf_world ?u" using assms(3) by (rule wf_update_cache)
  note k = alloc_keeps [OF wfu al]
  from start_sequence [OF p]
  have u: "state_group (room ?u) = Group (context_state_group ctx)"
    "cached_rules ?u = dict_update (cached_rules w) rules"
    by (simp_all add: update_cache_def cached_rules_def)
  from k(1) u(1) assms(1,2) have "fast_path ctx' w1" by (simp add: fast_path_def)
  then have second: "get_rules e' ctx' w1 = (rules_by_user (room w1), [], w1)"
    by (simp add: get_rules_def get_rules_start_def)
  from p False obtain missing lg0
    where loop: "state_loop e (member_map (room w)) (cached_rules w) (current_state_ids ctx)
                   ([], [], []) = (p_ret p, missing, lg0)"
    by (auto simp: get_rules_start_def split: prod.splits if_splits)
  have le: "map_of (p_ret p) \<subseteq>\<^sub>m map_of (cached_rules w)"
    by (rule state_loop_reuses_cached [OF loop]) simp
  have first: "heap w1 a1 = dict_update (p_ret p) rules" using k(4) .
  have cached: "cached_rules w1 = dict_update (cached_rules w) rules" using k(2) u(2) by simp
  have sub: "map_of (heap w1 a1) \<subseteq>\<^sub>m map_of (cached_rules w1)"
    by (simp add: first cached map_of_dict_update map_add_le_right [OF le])
  have "heap w1 a1 = cached_rules w1" if "cached_rules w = []"
  proof -
    from le that have "dom (map_of (p_ret p)) \<subseteq> {}"
      by (auto dest: map_le_implies_dom_le)
    then have "p_ret p = []" by (cases "p_ret p") auto
    with that first cached show ?thesis by simp
  qed
  with second sub False show ?thesis by simp
qed

theorem second_call_is_fast_path_witness:
  "truthy_int (context_state_group ctx_alice_bob)
   \<and> wf_world w_bob
   \<and> (\<exists>p. get_rules_start demo_env ctx_alice_bob w_bob = Suspended p)
   \<and> second_call = (0, [], snd (snd first_call))
   \<and> map_of (heap (snd (snd first_call)) (fst first_call))
        \<subseteq>\<^sub>m map_of (cached_rules (snd (snd first_call)))"
proof -
  have t: "truthy_int (context_state_group ctx_alice_bob)"
    by (simp add: truthy_int_def ctx_alice_bob_def)
  have wf: "wf_world w_bob"
    unfolding w_bob_def by (rule wf_get_rules [OF wf_new_RulesForRoom])
  have "case get_rules_start demo_env ctx_alice_bob w_bob of
          Suspended p \<Rightarrow> True | Returned a lg w \<Rightarrow> False"
    unfolding w_bob_def by code_simp
  then have s: "fast_path ctx_alice_bob w_bob
                 \<or> (\<exists>p. get_rules_start demo_env ctx_alice_bob w_bob = Suspended p)"
    by (cases "get_rules_start demo_env ctx_alice_bob w_bob") simp_all
  have f: "get_rules demo_env ctx_alice_bob w_bob
             = (fst first_call, fst (snd first_call), snd (snd first_call))"
    by (simp add: first_call_def)
  have a: "rules_by_user (room (snd (snd first_call))) = 0"
    unfolding first_call_def w_bob_def by code_simp
  have ff: "\<not> fast_path ctx_alice_bob w_bob"
    unfolding w_bob_def by code_simp
  from second_call_is_fast_path [OF t refl wf s f, of demo_env] a t wf s ff
  show ?thesis by (simp add: second_call_def)
qed

text \<open>
  The claim as stated fails. The cache holds Bob's rules and knows that he has left. The
  first call for a context with Alice and Bob looks Alice up and returns her rules only;
  the second call, with the same context, takes the fast path and returns the rules of
  Bob and Alice.
\<close>

theorem second_call_counterexample:
  "context_state_group ctx_alice_bob = Some 2
   \<and> map_of (heap (snd (snd first_call)) (fst first_call)) bob = None
   \<and> map_of (heap (snd (snd second_call)) (fst second_call)) bob = Some [notify_rule]
   \<and> sequence (room w_bob) = sequence (room (snd (snd second_call)))"
  unfolding second_call_def first_call_def w_bob_def by code_simp

subsection \<open>Whose rules are fetched\<close>

text \<open>
  Claim C4, as the code has it. Let \<open>interested\<close> be the users of the member rows that
  the batch lookup resolved. The set of users whose rules are fetched is: the users
  that the pusher lookup reports with a pusher, together with the users with a read
  receipt in the room who are in \<open>interested\<close>, with or without a pusher. That set is
  the argument of the one call of \<^verbatim>\<open>bulk_get_push_rules\<close>, and every user in the
  result has a ruleset that this call returned.
\<close>

theorem fetched_users:
  "(case member_lookups e rid member_event_ids of
      (members, user_ids, new_rules, lg) \<Rightarrow>
        user_ids =
          {u. (u, True) \<in> set (get_if_users_have_pushers e ((\<lambda>(i, u, m). u) ` set members))}
          \<union> (get_users_with_read_receipts_in_room e rid \<inter> (\<lambda>(i, u, m). u) ` set members)
        \<and> members = dict_of_items (map (\<lambda>(u, m, i). (i, (u, m)))
                        (simple_select_many_batch e (map snd member_event_ids)))
        \<and> filter (\<lambda>l. case l of Bulk_get_push_rules us \<Rightarrow> True | _ \<Rightarrow> False) lg
             = [Bulk_get_push_rules user_ids]
        \<and> fst ` set new_rules
             = {u. \<exists>rs. (u, Some rs) \<in> set (bulk_get_push_rules e user_ids)})"
proof -
  have k: "fst ` set (dict_of_items (List.map_filter (\<lambda>(k, v). map_option (Pair k) v) xs))
           = {u. \<exists>rs. (u, Some rs) \<in> set xs}" for xs :: "(user_id \<times> rule list option) list"
    by (force simp: dict_of_items_def keys_dict_update List.map_filter_def image_iff)
  show ?thesis
    unfolding member_lookups_def Let_def
    by (auto simp: k) force+
qed

text \<open>
  The claim as stated fails: Carol has no pusher and has a read receipt in the room. When
  her member event is resolved, her rules are fetched and returned, and cached.
\<close>

theorem fetched_users_counterexample:
  "\<not> user_has_pusher demo_env carol
   \<and> get_if_users_have_pushers demo_env {carol} = [(carol, False)]
   \<and> carol \<in> get_users_with_read_receipts_in_room demo_env ''!r''
   \<and> fst (snd (member_lookups demo_env ''!r'' [(carol, ''$c'')])) = {carol}
   \<and> map_of (heap (snd (snd (get_rules demo_env ctx_carol (new_RulesForRoom ''!r''))))
               (fst (get_rules demo_env ctx_carol (new_RulesForRoom ''!r'')))) carol
       = Some [notify_rule]
   \<and> map_of (cached_rules (snd (snd (get_rules demo_env ctx_carol (new_RulesForRoom ''!r'')))))
        carol = Some [notify_rule]"
  by code_simp

subsection \<open>Users who have left\<close>

text \<open>
  Claim C10. Bob is a user of this server with a pusher, and in the context his member
  event is a leave. From a new cache, \<^verbatim>\<open>get_rules\<close> finds his member event missing,
  resolves it in the batch lookup, fetches his rules, returns them and stores them in
  \<^verbatim>\<open>rules_by_user\<close>; \<^verbatim>\<open>action_for_event_by_user\<close> for a message of Alice then runs his
  rules and gives him the action \<^verbatim>\<open>notify\<close>.
\<close>

theorem left_user_is_returned:
  "is_mine_id demo_env bob \<and> user_has_pusher demo_env bob
   \<and> simple_select_many_batch demo_env [''$b''] = [(bob, ''leave'', ''$b'')]
   \<and> fst (snd (get_rules demo_env ctx_bob (new_RulesForRoom ''!r'')))
       = [App_services_interested bob, Select_many_batch [''$b''], If_users_have_pushers {bob},
          Users_with_read_receipts ''!r'', Bulk_get_push_rules {bob}]
   \<and> heap (snd (snd (get_rules demo_env ctx_bob (new_RulesForRoom ''!r''))))
        (fst (get_rules demo_env ctx_bob (new_RulesForRoom ''!r''))) = [(bob, [notify_rule])]
   \<and> cached_rules (snd (snd (get_rules demo_env ctx_bob (new_RulesForRoom ''!r''))))
       = [(bob, [notify_rule])]
   \<and> member_map (room (snd (snd (get_rules demo_env ctx_bob (new_RulesForRoom ''!r'')))))
       = [(''$b'', bob, ''leave'')]
   \<and> map_sum id fst (action_for_event_by_user demo_env message_from_alice ctx_bob
                       (new_RulesForRoom ''!r''))
       = Inr [(bob, [Act ''notify''])]"
  by code_simp

subsection \<open>Running the rules of one user\<close>

lemma rules_loop_append_passed:
  assumes "pass_over evaluator pre uid dn cache = Some cache1"
  shows "rules_loop evaluator (pre @ rest) uid dn (actions_by_user, cache)
       = rules_loop evaluator rest uid dn (actions_by_user, cache1)"
  using assms
proof (induction pre arbitrary: cache)
  case Nil
  then show ?case by simp
next
  case (Cons r pre)
  show ?case
  proof (cases "enabled r = Some False")
    case True
    with Cons.prems have "pass_over evaluator pre uid dn cache = Some cache1" by simp
    from Cons.IH [OF this] True show ?thesis by simp
  next
    case False
    obtain m c where cc: "condition_checker evaluator (conditions r) uid dn cache = (m, c)"
      by (cases "condition_checker evaluator (conditions r) uid dn cache")
    with False Cons.prems have m: "\<not> m" and p: "pass_over evaluator pre uid dn c = Some cache1"
      by (auto split: if_splits)
    from Cons.IH [OF p] False cc m show ?thesis by simp
  qed
qed

lemma memo_soundD:
  assumes "memo_sound evaluator uid dn cache conds"
    and "c \<in> set conds" and "cond_id c = Some i" and "map_of cache i = Some b"
  shows "b = evaluator c uid dn"
proof -
  from assms(1,2) have
    "case cond_id c of
       None \<Rightarrow> True
     | Some i \<Rightarrow>
         (case map_of cache i of None \<Rightarrow> True | Some b \<Rightarrow> b = evaluator c uid dn)
         \<and> (\<forall>c' \<in> set conds. cond_id c' = Some i \<longrightarrow>
               evaluator c' uid dn = evaluator c uid dn)"
    unfolding memo_sound_def by (rule bspec)
  then have "case map_of cache i of None \<Rightarrow> True | Some b \<Rightarrow> b = evaluator c uid dn"
    unfolding assms(3) option.case by (rule conjunct1)
  then show ?thesis unfolding assms(4) option.case .
qed

lemma memo_sound_sameD:
  assumes "memo_sound evaluator uid dn cache conds"
    and "c \<in> set conds" and "cond_id c = Some i"
    and "c' \<in> set conds" and "cond_id c' = Some i"
  shows "evaluator c' uid dn = evaluator c uid dn"
proof -
  from assms(1,2) have
    "case cond_id c of
       None \<Rightarrow> True
     | Some i \<Rightarrow>
         (case map_of cache i of None \<Rightarrow> True | Some b \<Rightarrow> b = evaluator c uid dn)
         \<and> (\<forall>c' \<in> set conds. cond_id c' = Some i \<longrightarrow>
               evaluator c' uid dn = evaluator c uid dn)"
    unfolding memo_sound_def by (rule bspec)
  then have "\<forall>c' \<in> set conds. cond_id c' = Some i \<longrightarrow>
               evaluator c' uid dn = evaluator c uid dn"
    unfolding assms(3) option.case by (rule conjunct2)
  with assms(4,5) show ?thesis by blast
qed

lemma memo_soundI:
  assumes entries: "\<And>c i b. c \<in> set conds \<Longrightarrow> cond_id c = Some i \<Longrightarrow> map_of cache i = Some b
                      \<Longrightarrow> b = evaluator c uid dn"
    and same: "\<And>c c' i. c \<in> set conds \<Longrightarrow> cond_id c = Some i \<Longrightarrow> c' \<in> set conds
                 \<Longrightarrow> cond_id c' = Some i \<Longrightarrow> evaluator c' uid dn = evaluator c uid dn"
  shows "memo_sound evaluator uid dn cache conds"
  unfolding memo_sound_def
proof (rule ballI)
  fix c assume c: "c \<in> set conds"
  show "case cond_id c of
          None \<Rightarrow> True
        | Some i \<Rightarrow>
            (case map_of cache i of None \<Rightarrow> True | Some b \<Rightarrow> b = evaluator c uid dn)
            \<and> (\<forall>c' \<in> set conds. cond_id c' = Some i \<longrightarrow>
                  evaluator c' uid dn = evaluator c uid dn)"
  proof (cases "cond_id c")
    case None
    then show ?thesis by simp
  next
    case id: (Some i)
    have 1: "case map_of cache i of None \<Rightarrow> True | Some b \<Rightarrow> b = evaluator c uid dn"
    proof (cases "map_of cache i")
      case None
      then show ?thesis by simp
    next
      case (Some b)
      from entries [OF c id Some] show ?thesis unfolding Some option.case .
    qed
    have 2: "\<forall>c' \<in> set conds. cond_id c' = Some i \<longrightarrow>
                  evaluator c' uid dn = evaluator c uid dn"
      using same [OF c id] by blast
    show ?thesis unfolding id option.case by (rule conjI [OF 1 2])
  qed
qed

lemma memo_sound_update:
  assumes "memo_sound evaluator uid dn cache conds"
    and "c \<in> set conds" and "cond_id c = Some i"
  shows "memo_sound evaluator uid dn (AList.update i (evaluator c uid dn) cache) conds"
proof (rule memo_soundI)
  fix c' j b
  assume c': "c' \<in> set conds" and j: "cond_id c' = Some j"
    and b: "map_of (AList.update i (evaluator c uid dn) cache) j = Some b"
  show "b = evaluator c' uid dn"
  proof (cases "j = i")
    case True
    from b True have "b = evaluator c uid dn" by (simp add: AList.update_conv')
    moreover from j True have "cond_id c' = Some i" by simp
    from memo_sound_sameD [OF assms(1) c' this assms(2,3)]
    have "evaluator c uid dn = evaluator c' uid dn" .
    ultimately show ?thesis by (rule trans)
  next
    case False
    with b have "map_of cache j = Some b" by (simp add: AList.update_conv')
    with assms(1) c' j show ?thesis by (rule memo_soundD)
  qed
next
  fix c1 c2 j
  assume "c1 \<in> set conds" "cond_id c1 = Some j" "c2 \<in> set conds" "cond_id c2 = Some j"
  with assms(1) show "evaluator c2 uid dn = evaluator c1 uid dn" by (rule memo_sound_sameD)
qed

lemma condition_checker_sound:
  assumes "memo_sound evaluator uid dn cache conds" and "set cs \<subseteq> set conds"
  shows "fst (condition_checker evaluator cs uid dn cache) = list_all (\<lambda>c. evaluator c uid dn) cs
       \<and> memo_sound evaluator uid dn (snd (condition_checker evaluator cs uid dn cache)) conds"
  using assms
proof (induction cs arbitrary: cache)
  case Nil
  then show ?case by simp
next
  case (Cons c cs)
  from Cons.prems(2) have c: "c \<in> set conds" and cs: "set cs \<subseteq> set conds" by auto
  note sound = Cons.prems(1)
  show ?case
  proof (cases "cond_id c")
    case None
    from Cons.IH [OF sound cs] sound None show ?thesis by simp
  next
    case id: (Some i)
    show ?thesis
    proof (cases "map_of cache i")
      case None
      let ?cache = "AList.update i (evaluator c uid dn) cache"
      have s: "memo_sound evaluator uid dn ?cache conds"
        using sound c id by (rule memo_sound_update)
      from Cons.IH [OF s cs] s id None show ?thesis
        by (cases "evaluator c uid dn") simp_all
    next
      case (Some b)
      from sound c id Some have b: "b = evaluator c uid dn" by (rule memo_soundD)
      show ?thesis
      proof (cases b)
        case True
        with b have "evaluator c uid dn" by simp
        with Cons.IH [OF sound cs] id Some True show ?thesis by simp
      next
        case False
        with b have "\<not> evaluator c uid dn" by simp
        with sound id Some False show ?thesis by simp
      qed
    qed
  qed
qed

lemma pass_over_sound:
  assumes "memo_sound evaluator uid dn cache conds"
    and "\<forall>p \<in> set pre. set (conditions p) \<subseteq> set conds"
    and "\<forall>p \<in> set pre. enabled p = Some False \<or> \<not> list_all (\<lambda>c. evaluator c uid dn) (conditions p)"
  shows "\<exists>cache1. pass_over evaluator pre uid dn cache = Some cache1
                 \<and> memo_sound evaluator uid dn cache1 conds"
  using assms
proof (induction pre arbitrary: cache)
  case Nil
  then show ?case by simp
next
  case (Cons p pre)
  show ?case
  proof (cases "enabled p = Some False")
    case True
    with Cons.IH [OF Cons.prems(1)] Cons.prems(2,3) show ?thesis by simp
  next
    case False
    with Cons.prems(3) have no: "\<not> list_all (\<lambda>c. evaluator c uid dn) (conditions p)" by simp
    from Cons.prems(2) have sub: "set (conditions p) \<subseteq> set conds" by simp
    obtain m c1 where cc: "condition_checker evaluator (conditions p) uid dn cache = (m, c1)"
      by (cases "condition_checker evaluator (conditions p) uid dn cache")
    from condition_checker_sound [OF Cons.prems(1) sub] cc no
    have m: "\<not> m" and s: "memo_sound evaluator uid dn c1 conds" by simp_all
    from Cons.IH [OF s] Cons.prems(2,3) False cc m show ?thesis by simp
  qed
qed

text \<open>
  Claim C6, as the code has it. A condition with a non-empty \<^verbatim>\<open>_id\<close> for which the
  condition cache of the event has an entry is decided by that entry, whichever user's
  rules stored it, and the evaluator is not asked. Now let the cache agree with the
  evaluator for this user on the conditions of \<open>pre\<close> and \<open>r\<close> (as it does when none of
  them has an \<^verbatim>\<open>_id\<close>), let every rule of \<open>pre\<close> be disabled or have a condition that
  the evaluator rejects, and let \<open>r\<close> be not disabled with all its conditions accepted
  by the evaluator. Then the loop over \<open>pre @ r # post\<close> ends at \<open>r\<close>, whatever \<open>post\<close>
  is: the actions of \<open>r\<close> without every \<^verbatim>\<open>dont_notify\<close> become the user's entry if they
  are not empty and contain \<^verbatim>\<open>notify\<close>, and otherwise the actions by user are as before.
  A disabled rule is skipped even if the evaluator accepts all its conditions.
\<close>

theorem first_matching_rule_decides:
  assumes "memo_sound evaluator uid dn cache (concat (map conditions (pre @ [r])))"
    and "\<forall>p \<in> set pre. enabled p = Some False
                        \<or> \<not> list_all (\<lambda>c. evaluator c uid dn) (conditions p)"
    and "enabled r \<noteq> Some False"
    and "list_all (\<lambda>c. evaluator c uid dn) (conditions r)"
  shows "fst (rules_loop evaluator (pre @ r # post) uid dn (actions_by_user, cache))
           = (if filter (\<lambda>x. x \<noteq> Act ''dont_notify'') (actions r) \<noteq> []
                 \<and> Act ''notify'' \<in> set (filter (\<lambda>x. x \<noteq> Act ''dont_notify'') (actions r))
              then AList.update uid (filter (\<lambda>x. x \<noteq> Act ''dont_notify'') (actions r))
                     actions_by_user
              else actions_by_user)
       \<and> (map_of actions_by_user uid = None \<longrightarrow>
            (map_of (fst (rules_loop evaluator (pre @ r # post) uid dn (actions_by_user, cache))) uid
               \<noteq> None)
            = (filter (\<lambda>x. x \<noteq> Act ''dont_notify'') (actions r) \<noteq> []
                 \<and> Act ''notify'' \<in> set (actions r)))
       \<and> (\<forall>acts. map_of (fst (rules_loop evaluator (pre @ r # post) uid dn ([], cache))) uid
                    = Some acts \<longrightarrow>
             acts = filter (\<lambda>x. x \<noteq> Act ''dont_notify'') (actions r)
             \<and> Act ''dont_notify'' \<notin> set acts)
       \<and> (\<forall>d. enabled d = Some False \<longrightarrow>
             rules_loop evaluator (d # pre @ r # post) uid dn (actions_by_user, cache)
               = rules_loop evaluator (pre @ r # post) uid dn (actions_by_user, cache))
       \<and> fst (rules_loop evaluator pre uid dn (actions_by_user, cache)) = actions_by_user
       \<and> (\<forall>c cs i b memo. cond_id c = Some i \<longrightarrow> map_of memo i = Some b \<longrightarrow>
             condition_checker evaluator (c # cs) uid dn memo
               = (if b then condition_checker evaluator cs uid dn memo else (False, memo)))"
proof -
  let ?conds = "concat (map conditions (pre @ [r]))"
  have sub: "\<forall>p \<in> set pre. set (conditions p) \<subseteq> set ?conds" by auto
  from pass_over_sound [OF assms(1) sub assms(2)]
  obtain cache1 where p: "pass_over evaluator pre uid dn cache = Some cache1"
    and s1: "memo_sound evaluator uid dn cache1 ?conds"
    by blast
  have "set (conditions r) \<subseteq> set ?conds" by auto
  from condition_checker_sound [OF s1 this] assms(4)
  have "fst (condition_checker evaluator (conditions r) uid dn cache1)" by simp
  then obtain cache2 where m: "condition_checker evaluator (conditions r) uid dn cache1 = (True, cache2)"
    by (cases "condition_checker evaluator (conditions r) uid dn cache1") auto
  have main: "fst (rules_loop evaluator (pre @ r # post) uid dn (abu, cache))
           = (if filter (\<lambda>x. x \<noteq> Act ''dont_notify'') (actions r) \<noteq> []
                 \<and> Act ''notify'' \<in> set (filter (\<lambda>x. x \<noteq> Act ''dont_notify'') (actions r))
              then AList.update uid (filter (\<lambda>x. x \<noteq> Act ''dont_notify'') (actions r)) abu
              else abu)" for abu
    using assms(3) m by (simp add: rules_loop_append_passed [OF p])
  have c1: "fst (rules_loop evaluator (pre @ r # post) uid dn (actions_by_user, cache))
           = (if filter (\<lambda>x. x \<noteq> Act ''dont_notify'') (actions r) \<noteq> []
                 \<and> Act ''notify'' \<in> set (filter (\<lambda>x. x \<noteq> Act ''dont_notify'') (actions r))
              then AList.update uid (filter (\<lambda>x. x \<noteq> Act ''dont_notify'') (actions r))
                     actions_by_user
              else actions_by_user)"
    by (rule main)
  have c2: "map_of actions_by_user uid = None \<longrightarrow>
            (map_of (fst (rules_loop evaluator (pre @ r # post) uid dn (actions_by_user, cache))) uid
               \<noteq> None)
            = (filter (\<lambda>x. x \<noteq> Act ''dont_notify'') (actions r) \<noteq> []
                 \<and> Act ''notify'' \<in> set (actions r))"
    by (auto simp: main AList.update_conv')
  have c3: "\<forall>acts. map_of (fst (rules_loop evaluator (pre @ r # post) uid dn ([], cache))) uid
                    = Some acts \<longrightarrow>
             acts = filter (\<lambda>x. x \<noteq> Act ''dont_notify'') (actions r)
             \<and> Act ''dont_notify'' \<notin> set acts"
    by (auto simp: main split: if_splits)
  have c4: "\<forall>d. enabled d = Some False \<longrightarrow>
             rules_loop evaluator (d # pre @ r # post) uid dn (actions_by_user, cache)
               = rules_loop evaluator (pre @ r # post) uid dn (actions_by_user, cache)"
    by simp
  have c5: "fst (rules_loop evaluator pre uid dn (actions_by_user, cache)) = actions_by_user"
    using rules_loop_append_passed [OF p, of "[]" actions_by_user] by simp
  have c6: "\<forall>c cs i b memo. cond_id c = Some i \<longrightarrow> map_of memo i = Some b \<longrightarrow>
             condition_checker evaluator (c # cs) uid dn memo
               = (if b then condition_checker evaluator cs uid dn memo else (False, memo))"
    by simp
  show ?thesis
    by (intro conjI c1 c2 c3 c4 c5 c6)
qed

theorem first_matching_rule_decides_witness:
  "memo_sound (PushRuleEvaluatorForEvent demo_env message_from_alice 1) bob None [(''_a'', True)]
     (concat (map conditions ([disabled_rule, failing_rule] @ [chosen_rule])))
   \<and> enabled disabled_rule = Some False
   \<and> \<not> list_all (\<lambda>c. PushRuleEvaluatorForEvent demo_env message_from_alice 1 c bob None)
          (conditions failing_rule)
   \<and> list_all (\<lambda>c. PushRuleEvaluatorForEvent demo_env message_from_alice 1 c bob None)
        (conditions disabled_rule)
   \<and> enabled chosen_rule \<noteq> Some False
   \<and> list_all (\<lambda>c. PushRuleEvaluatorForEvent demo_env message_from_alice 1 c bob None)
        (conditions chosen_rule)
   \<and> list_all (\<lambda>c. PushRuleEvaluatorForEvent demo_env message_from_alice 1 c bob None)
        (conditions later_rule)
   \<and> fst (rules_loop (PushRuleEvaluatorForEvent demo_env message_from_alice 1)
             ([disabled_rule, failing_rule] @ chosen_rule # [later_rule]) bob None
             ([], [(''_a'', True)]))
       = [(bob, [Act ''notify''])]"
proof -
  let ?ev = "PushRuleEvaluatorForEvent demo_env message_from_alice 1"
  have s: "memo_sound ?ev bob None [(''_a'', True)]
             (concat (map conditions ([disabled_rule, failing_rule] @ [chosen_rule])))"
    by code_simp
  have p: "\<forall>p \<in> set [disabled_rule, failing_rule].
         enabled p = Some False \<or> \<not> list_all (\<lambda>c. ?ev c bob None) (conditions p)"
    by code_simp
  have e: "enabled chosen_rule \<noteq> Some False" by (simp add: chosen_rule_def)
  have c: "list_all (\<lambda>c. ?ev c bob None) (conditions chosen_rule)" by code_simp
  have o: "list_all (\<lambda>c. ?ev c bob None) (conditions disabled_rule)"
    "list_all (\<lambda>c. ?ev c bob None) (conditions later_rule)"
    by code_simp+
  have a: "actions chosen_rule = [Act ''dont_notify'', Act ''notify'']"
    by (simp add: chosen_rule_def)
  note first_matching_rule_decides [OF s p e c, of "[later_rule]" "[]", THEN conjunct1]
  then have r: "fst (rules_loop ?ev ([disabled_rule, failing_rule] @ chosen_rule # [later_rule])
                      bob None ([], [(''_a'', True)])) = [(bob, [Act ''notify''])]"
    by (simp add: a)
  have d: "enabled disabled_rule = Some False" by (simp add: disabled_rule_def)
  have f: "\<not> list_all (\<lambda>c. ?ev c bob None) (conditions failing_rule)" by code_simp
  show ?thesis
    by (intro conjI s d f o e c r)
qed

text \<open>
  The claim as stated fails where a condition with an \<^verbatim>\<open>_id\<close> depends on the user. The
  evaluator accepts the condition of the one rule for Dave and rejects it for Bob. When
  Dave's rules run first, the cache answers for Bob and Bob gets an entry from a rule
  whose condition does not hold for him. In \<^verbatim>\<open>action_for_event_by_user\<close> for the invite
  of Dave, Bob's rules run first, the cache answers for Dave, and Dave gets no entry
  although his first rule is enabled, its condition holds and its actions are
  \<^verbatim>\<open>notify\<close>.
\<close>

theorem first_matching_rule_counterexample:
  "invite_evaluator invite_for_me dave None
   \<and> \<not> invite_evaluator invite_for_me bob None
   \<and> enabled invite_rule = None
   \<and> conditions invite_rule = [invite_for_me]
   \<and> actions invite_rule = [Act ''notify'']
   \<and> users_loop invite_evaluator invite_dave []
        [(dave, [invite_dave]), (bob, [invite_dave])]
        [(dave, [invite_rule]), (bob, [invite_rule])] ([], [])
       = Inr ([(dave, [Act ''notify'']), (bob, [Act ''notify''])], [(''_invite_for_me'', True)])
   \<and> PushRuleEvaluatorForEvent invite_env invite_dave 1 = invite_evaluator
   \<and> map_sum id fst (action_for_event_by_user invite_env invite_dave ctx_all
                       (new_RulesForRoom ''!r''))
       = Inr []"
proof -
  have "PushRuleEvaluatorForEvent invite_env invite_dave 1 = invite_evaluator"
    by (simp add: invite_env_def)
  moreover have "invite_evaluator invite_for_me dave None
   \<and> \<not> invite_evaluator invite_for_me bob None
   \<and> enabled invite_rule = None
   \<and> conditions invite_rule = [invite_for_me]
   \<and> actions invite_rule = [Act ''notify'']
   \<and> users_loop invite_evaluator invite_dave []
        [(dave, [invite_dave]), (bob, [invite_dave])]
        [(dave, [invite_rule]), (bob, [invite_rule])] ([], [])
       = Inr ([(dave, [Act ''notify'']), (bob, [Act ''notify''])], [(''_invite_for_me'', True)])
   \<and> map_sum id fst (action_for_event_by_user invite_env invite_dave ctx_all
                       (new_RulesForRoom ''!r''))
       = Inr []"
    by code_simp
  ultimately show ?thesis by simp
qed

subsection \<open>Who is left out of the result\<close>

lemma rules_loop_other_user:
  "u \<noteq> uid \<Longrightarrow> map_of (fst (rules_loop evaluator rules uid dn st)) u = map_of (fst st) u"
proof (induction rules arbitrary: st)
  case Nil
  show ?case by simp
next
  case (Cons r rules)
  obtain abu cache where st: "st = (abu, cache)" by (cases st)
  from Cons show ?case
    by (simp add: st AList.update_conv' split: prod.splits)
qed

lemma users_loop_absent:
  assumes "users_loop evaluator ev room_members filtered_by_user items st = Inr (abu, cache)"
    and "map_of (fst st) u = None"
    and "case map_of filtered_by_user u of
           None \<Rightarrow> True | Some [] \<Rightarrow> True | Some (first # _) \<Rightarrow> sender first = u"
  shows "map_of abu u = None"
  using assms(1,2)
proof (induction items arbitrary: st)
  case Nil
  then show ?case by simp
next
  case (Cons item items)
  obtain uid rules where item: "item = (uid, rules)" by (cases item)
  show ?case
  proof (cases "map_of filtered_by_user uid")
    case None
    with Cons.prems(1) show ?thesis by (simp add: item)
  next
    case (Some filtered)
    show ?thesis
    proof (cases filtered)
      case Nil
      with Some Cons.prems have
        "users_loop evaluator ev room_members filtered_by_user items st = Inr (abu, cache)"
        by (simp add: item)
      then show ?thesis using Cons.prems(2) by (rule Cons.IH)
    next
      case (Cons first others)
      show ?thesis
      proof (cases "sender first = uid")
        case True
        with Some Cons \<open>users_loop evaluator ev room_members filtered_by_user (item # items) st
            = Inr (abu, cache)\<close>
        have "users_loop evaluator ev room_members filtered_by_user items st = Inr (abu, cache)"
          by (simp add: item)
        then show ?thesis using \<open>map_of (fst st) u = None\<close> by (rule Cons.IH)
      next
        case False
        let ?st = "rules_loop evaluator rules uid (display_name_for ev room_members uid) st"
        from False Some Cons
          \<open>users_loop evaluator ev room_members filtered_by_user (item # items) st
            = Inr (abu, cache)\<close>
        have run: "users_loop evaluator ev room_members filtered_by_user items ?st
                     = Inr (abu, cache)"
          by (simp add: item)
        from False Some Cons assms(3) have "u \<noteq> uid" by auto
        then have "map_of (fst ?st) u = None"
          using \<open>map_of (fst st) u = None\<close> by (simp add: rules_loop_other_user)
        with run show ?thesis by (rule Cons.IH)
      qed
    qed
  qed
qed

text \<open>
  Claim C7. Let \<^verbatim>\<open>action_for_event_by_user\<close> return a mapping, and let every event that
  the visibility filter returns for the one event it is given have the sender of that
  event. Then the sender of the event has no entry in the mapping, and neither has a user
  for whom the filter returned no event.
\<close>

theorem sender_and_unseeing_users_left_out:
  assumes "get_rules_for_event e ev ctx w = Inr (a, lg, w1)"
    and "filtered_by_user =
           filter_events_for_clients_context e (map (\<lambda>u. (u, False)) (map fst (heap w1 a)))
             [ev] [(event_id ev, ctx)]"
    and "\<forall>u visible first. map_of filtered_by_user u = Some visible \<longrightarrow> first \<in> set visible
           \<longrightarrow> sender first = sender ev"
    and "action_for_event_by_user e ev ctx w = Inr (actions_by_user, w')"
  shows "map_of actions_by_user (sender ev) = None
       \<and> (\<forall>u. map_of filtered_by_user u = Some [] \<longrightarrow> map_of actions_by_user u = None)"
proof -
  let ?members = "get_joined_users_from_context e ev ctx"
  let ?evaluator = "PushRuleEvaluatorForEvent e ev (length ?members)"
  from assms(1,2,4) obtain cache where run:
    "users_loop ?evaluator ev ?members filtered_by_user (heap w1 a) ([], []) = Inr (actions_by_user, cache)"
    by (auto simp: action_for_event_by_user_def Let_def split: sum.splits prod.splits)
  have s: "case map_of filtered_by_user (sender ev) of
             None \<Rightarrow> True | Some [] \<Rightarrow> True | Some (first # _) \<Rightarrow> sender first = sender ev"
    using assms(3) by (auto split: option.splits list.splits)
  have "map_of actions_by_user (sender ev) = None"
    by (rule users_loop_absent [OF run _ s]) simp
  moreover have "map_of actions_by_user u = None" if "map_of filtered_by_user u = Some []" for u
    by (rule users_loop_absent [OF run]) (simp_all add: that)
  ultimately show ?thesis by blast
qed

theorem sender_and_unseeing_users_left_out_witness:
  "\<exists>a lg w1 actions_by_user w'.
     get_rules_for_event demo_env_hiding_bob message_from_alice ctx_all (new_RulesForRoom ''!r'')
       = Inr (a, lg, w1)
     \<and> action_for_event_by_user demo_env_hiding_bob message_from_alice ctx_all
          (new_RulesForRoom ''!r'') = Inr (actions_by_user, w')
     \<and> heap w1 a = [(alice, [notify_rule]), (bob, [notify_rule]), (carol, [notify_rule])]
     \<and> filter_events_for_clients_context demo_env_hiding_bob
          (map (\<lambda>u. (u, False)) (map fst (heap w1 a))) [message_from_alice]
          [(event_id message_from_alice, ctx_all)]
         = [(alice, [message_from_alice]), (bob, []), (carol, [message_from_alice])]
     \<and> sender message_from_alice = alice
     \<and> actions_by_user = [(carol, [Act ''notify''])]
     \<and> map_of actions_by_user alice = None
     \<and> map_of actions_by_user bob = None"
proof -
  let ?w = "new_RulesForRoom ''!r''"
  let ?g = "get_rules_for_event demo_env_hiding_bob message_from_alice ctx_all ?w"
  let ?r = "action_for_event_by_user demo_env_hiding_bob message_from_alice ctx_all ?w"
  have "case ?g of Inl err \<Rightarrow> False
        | Inr (a, lg, w1) \<Rightarrow>
            heap w1 a = [(alice, [notify_rule]), (bob, [notify_rule]), (carol, [notify_rule])]"
    by code_simp
  then obtain a lg w1 where g: "?g = Inr (a, lg, w1)"
    and h: "heap w1 a = [(alice, [notify_rule]), (bob, [notify_rule]), (carol, [notify_rule])]"
    by (cases ?g) auto
  have "map_sum id fst ?r = Inr [(carol, [Act ''notify''])]"
    by code_simp
  then obtain w' where r: "?r = Inr ([(carol, [Act ''notify''])], w')"
    by (cases ?r) auto
  let ?f = "filter_events_for_clients_context demo_env_hiding_bob
              (map (\<lambda>u. (u, False)) (map fst (heap w1 a))) [message_from_alice]
              [(event_id message_from_alice, ctx_all)]"
  have f: "?f = [(alice, [message_from_alice]), (bob, []), (carol, [message_from_alice])]"
    by (simp add: h demo_env_hiding_bob_def demo_env_def)
  have c: "\<forall>u visible first. map_of ?f u = Some visible \<longrightarrow> first \<in> set visible
             \<longrightarrow> sender first = sender message_from_alice"
    unfolding f by (auto split: if_splits)
  have s: "sender message_from_alice = alice"
    by (simp add: message_from_alice_def)
  from sender_and_unseeing_users_left_out [OF g refl c r] f s
  have "map_of [(carol, [Act ''notify''])] alice = None
        \<and> map_of [(carol, [Act ''notify''])] bob = None"
    by simp
  with g r h f s show ?thesis by blast
qed

subsection \<open>The invited user\<close>

lemma invite_special_case_copies:
  assumes "rules_by_user (room w) < next_addr w"
    and "event_type ev = ''m.room.member''"
    and "map_of (content ev) ''membership'' = Some ''invite''"
    and "state_key ev = Some invited" and "invited \<noteq> []"
    and "is_mine_id e invited" and "user_has_pusher e invited"
  shows "\<exists>w'. invite_special_case e ev a w
                = Inr (next_addr w, [User_has_pusher invited, Get_push_rules_for_user invited], w')
              \<and> heap w' (next_addr w) = AList.update invited (get_push_rules_for_user e invited) (heap w a)
              \<and> room w' = room w
              \<and> cached_rules w' = cached_rules w
              \<and> (\<forall>b. b < next_addr w \<longrightarrow> heap w' b = heap w b)"
  using assms
  by (simp add: invite_special_case_def truthy_str_def dict_copy_def alloc_def setitem_def
      cached_rules_def)

text \<open>
  Claim C8. The event is an invite whose state key is a user of this server with a
  pusher (present in the rules that \<^verbatim>\<open>get_rules\<close> returned or, as in the claim, absent
  from them). Then \<^verbatim>\<open>_get_rules_for_event\<close> asks for the pusher and for the user's rules
  and returns a dictionary at a new address, which is not the address of the cached
  rules: the rules that \<^verbatim>\<open>get_rules\<close> returned with the invited user set to the fetched
  rules. The room object, the cached rules and every dictionary that existed when
  \<^verbatim>\<open>get_rules\<close> returned are unchanged; what the cache holds for the invited user is what
  it held when \<^verbatim>\<open>get_rules\<close> returned.
\<close>

theorem invited_user_is_not_cached:
  assumes "wf_world w"
    and "get_rules e ctx w = (a, lg, w1)"
    and "event_type ev = ''m.room.member''"
    and "map_of (content ev) ''membership'' = Some ''invite''"
    and "state_key ev = Some invited" and "invited \<noteq> []"
    and "is_mine_id e invited" and "user_has_pusher e invited"
  shows "\<exists>a' w2. get_rules_for_event e ev ctx w
                  = Inr (a', lg @ [User_has_pusher invited, Get_push_rules_for_user invited], w2)
              \<and> a' \<noteq> rules_by_user (room w2)
              \<and> map_of (heap w2 a') = (map_of (heap w1 a))(invited \<mapsto> get_push_rules_for_user e invited)
              \<and> room w2 = room w1
              \<and> member_map (room w2) = member_map (room w1)
              \<and> cached_rules w2 = cached_rules w1
              \<and> (\<forall>b. b < next_addr w1 \<longrightarrow> heap w2 b = heap w1 b)
              \<and> map_of (cached_rules w2) invited = map_of (cached_rules w1) invited"
proof -
  from wf_get_rules [OF assms(1), of e ctx] assms(2) have "wf_world w1" by simp
  then have lt: "rules_by_user (room w1) < next_addr w1" by (simp add: wf_world_def)
  from invite_special_case_copies [OF lt assms(3-8), of a]
  obtain w2 where i: "invite_special_case e ev a w1
        = Inr (next_addr w1, [User_has_pusher invited, Get_push_rules_for_user invited], w2)"
    and h: "heap w2 (next_addr w1)
              = AList.update invited (get_push_rules_for_user e invited) (heap w1 a)"
    and k: "room w2 = room w1" "cached_rules w2 = cached_rules w1"
      "\<forall>b. b < next_addr w1 \<longrightarrow> heap w2 b = heap w1 b"
    by blast
  from assms(2) i have "get_rules_for_event e ev ctx w
      = Inr (next_addr w1, lg @ [User_has_pusher invited, Get_push_rules_for_user invited], w2)"
    by (simp add: get_rules_for_event_def)
  moreover from lt k(1) have "next_addr w1 \<noteq> rules_by_user (room w2)" by simp
  moreover from h have "map_of (heap w2 (next_addr w1))
      = (map_of (heap w1 a))(invited \<mapsto> get_push_rules_for_user e invited)"
    by (simp add: AList.update_conv')
  ultimately show ?thesis using k by simp
qed

theorem invited_user_is_not_cached_witness:
  "wf_world (new_RulesForRoom ''!r'')
   \<and> event_type invite_dave = ''m.room.member''
   \<and> map_of (content invite_dave) ''membership'' = Some ''invite''
   \<and> state_key invite_dave = Some dave \<and> dave \<noteq> []
   \<and> is_mine_id demo_env dave \<and> user_has_pusher demo_env dave
   \<and> map_of (heap (snd (snd (get_rules demo_env ctx_alice_bob (new_RulesForRoom ''!r''))))
               (fst (get_rules demo_env ctx_alice_bob (new_RulesForRoom ''!r'')))) dave = None
   \<and> (\<exists>a' lg w2. get_rules_for_event demo_env invite_dave ctx_alice_bob (new_RulesForRoom ''!r'')
                    = Inr (a', lg, w2)
          \<and> map_of (heap w2 a') dave = Some [notify_rule]
          \<and> map_of (cached_rules w2) dave = None
          \<and> cached_rules w2 = [(alice, [notify_rule]), (bob, [notify_rule])])"
proof -
  let ?w = "new_RulesForRoom ''!r''"
  let ?g = "get_rules demo_env ctx_alice_bob ?w"
  have wf: "wf_world ?w" by (rule wf_new_RulesForRoom)
  have g: "?g = (fst ?g, fst (snd ?g), snd (snd ?g))" by simp
  have ev: "event_type invite_dave = ''m.room.member''"
    "map_of (content invite_dave) ''membership'' = Some ''invite''"
    "state_key invite_dave = Some dave" "dave \<noteq> []"
    "is_mine_id demo_env dave" "user_has_pusher demo_env dave"
    by (simp_all add: invite_dave_def demo_env_def)
  have c: "cached_rules (snd (snd ?g)) = [(alice, [notify_rule]), (bob, [notify_rule])]"
    "map_of (heap (snd (snd ?g)) (fst ?g)) dave = None"
    "get_push_rules_for_user demo_env dave = [notify_rule]"
    by code_simp+
  from invited_user_is_not_cached [OF wf g ev] c
  have "\<exists>a' lg w2. get_rules_for_event demo_env invite_dave ctx_alice_bob ?w = Inr (a', lg, w2)
          \<and> map_of (heap w2 a') dave = Some [notify_rule]
          \<and> map_of (cached_rules w2) dave = None
          \<and> cached_rules w2 = [(alice, [notify_rule]), (bob, [notify_rule])]"
    by auto
  with wf ev c show ?thesis by simp
qed

end
